theory Spec2Isabelle
  imports
    Complex_Main
    "HOL-Library.Sublist"
    "HOL-Library.Char_ord"
    "HOL-Library.List_Lexorder"
    "HOL-Library.Option_ord"
    "HOL-Library.Multiset"
begin

section \<open>The user row and the request shapes\<close>

text \<open>
  A row of the table \<open>users\<close> (migration.sql, lines 2-15) and the Prisma type \<open>user\<close>.
  Timestamps are instants counted as natural numbers. The column \<open>id\<close> is the field
  \<open>id_of\<close> here, since \<open>id\<close> is the identity function of HOL.
\<close>

type_synonym timestamp = nat

record user =
  id_of :: string
  first_name :: string
  last_name :: string
  email :: string
  password :: string
  is_active :: bool
  created_at :: timestamp
  updated_at :: timestamp
  deleted_at :: "timestamp option"

text \<open>\<open>CreateUserRequest\<close> and \<open>UpdateUserRequest\<close> (user.types.ts); an optional field
  is an option.\<close>

record CreateUserRequest =
  c_first_name :: string
  c_last_name :: string
  c_email :: string
  c_password :: string

record UpdateUserRequest =
  u_first_name :: "string option"
  u_last_name :: "string option"
  u_email :: "string option"
  u_is_active :: "bool option"

text \<open>The error classes the repository throws (types/errors).\<close>

datatype app_error = NotFoundError | ConflictError | DatabaseError

section \<open>The Primary Store\<close>

text \<open>
  The table is created with \<open>COLLATE utf8mb4_unicode_ci\<close> (migration.sql, line 15): every
  comparison of a text column, the unique index and the primary key included, ignores
  letter case. \<open>collate\<close> is the comparison key of a text value; it folds the ASCII
  letters (the accent folding and the space padding of the collation are left out).
\<close>

definition ci_char :: "char \<Rightarrow> char" where
  "ci_char c =
     (case map_of (zip ''ABCDEFGHIJKLMNOPQRSTUVWXYZ'' ''abcdefghijklmnopqrstuvwxyz'') c of
        Some l \<Rightarrow> l
      | None \<Rightarrow> c)"

definition collate :: "string \<Rightarrow> string" where
  "collate w = map ci_char w"

definition ceq :: "string \<Rightarrow> string \<Rightarrow> bool" where
  "ceq a b \<longleftrightarrow> collate a = collate b"

text \<open>The known request errors of the Prisma client that the statements used by the
  repository can raise: P2002 (unique constraint failed) and P2025 (record to update or
  delete not found).\<close>

datatype prisma_error = P2002 | P2025

text \<open>\<open>user.findUnique({ where: { id, deleted_at: null } })\<close> and its sibling on
  \<open>email\<close>.\<close>

definition findUnique_id :: "string \<Rightarrow> user list \<Rightarrow> user option" where
  "findUnique_id i tbl = find (\<lambda>u. ceq (id_of u) i \<and> deleted_at u = None) tbl"

definition findUnique_email :: "string \<Rightarrow> user list \<Rightarrow> user option" where
  "findUnique_email e tbl = find (\<lambda>u. ceq (email u) e \<and> deleted_at u = None) tbl"

text \<open>
  \<open>user.create({ data })\<close>. The row is inserted unless the primary key or the unique
  index \<open>users_email_key\<close> (migration.sql, lines 13-14) rejects it; both range over every
  row of the table, soft-deleted or not.
\<close>

definition prisma_create :: "user \<Rightarrow> user list \<Rightarrow> prisma_error + user list" where
  "prisma_create u tbl =
     (if list_ex (\<lambda>v. ceq (id_of v) (id_of u) \<or> ceq (email v) (email u)) tbl
      then Inl P2002 else Inr (tbl @ [u]))"

text \<open>The \<open>data\<close> argument of \<open>user.update\<close>: the four fields of an
  \<open>UpdateUserRequest\<close>, and \<open>deleted_at\<close>, which softDelete sets.\<close>

record user_update_input =
  d_first_name :: "string option"
  d_last_name :: "string option"
  d_email :: "string option"
  d_is_active :: "bool option"
  d_deleted_at :: "timestamp option"

text \<open>
  Modelled from the spec: prisma/schema.prisma is not among the sources, so the time stamp
  that the client writes on an update is taken from section 3 of the specification
  (\<open>updated_at\<close>: "set at creation, refreshed on every mutation"). The migration agrees:
  \<open>updated_at\<close> is NOT NULL without a default and no caller ever supplies it. Fields
  absent from \<open>data\<close> keep their value.
\<close>

definition apply_update :: "user_update_input \<Rightarrow> timestamp \<Rightarrow> user \<Rightarrow> user" where
  "apply_update d now u =
     u\<lparr> first_name := (case d_first_name d of None \<Rightarrow> first_name u | Some x \<Rightarrow> x),
        last_name := (case d_last_name d of None \<Rightarrow> last_name u | Some x \<Rightarrow> x),
        email := (case d_email d of None \<Rightarrow> email u | Some x \<Rightarrow> x),
        is_active := (case d_is_active d of None \<Rightarrow> is_active u | Some x \<Rightarrow> x),
        deleted_at := (case d_deleted_at d of None \<Rightarrow> deleted_at u | Some t \<Rightarrow> Some t),
        updated_at := now \<rparr>"

text \<open>\<open>user.update({ where: { id }, data })\<close>: no \<open>deleted_at\<close> filter here, so a
  soft-deleted row is found too. It returns the new row and the new table.\<close>

definition prisma_update ::
  "string \<Rightarrow> user_update_input \<Rightarrow> timestamp \<Rightarrow> user list \<Rightarrow> prisma_error + (user \<times> user list)"
where
  "prisma_update i d now tbl =
     (case find (\<lambda>u. ceq (id_of u) i) tbl of
        None \<Rightarrow> Inl P2025
      | Some u \<Rightarrow>
          (let u' = apply_update d now u in
           if list_ex (\<lambda>v. \<not> ceq (id_of v) i \<and> ceq (email v) (email u')) tbl
           then Inl P2002
           else Inr (u', map (\<lambda>v. if ceq (id_of v) i then u' else v) tbl)))"

text \<open>\<open>user.delete({ where: { id } })\<close>.\<close>

definition prisma_delete :: "string \<Rightarrow> user list \<Rightarrow> prisma_error + user list" where
  "prisma_delete i tbl =
     (if list_ex (\<lambda>u. ceq (id_of u) i) tbl
      then Inr (filter (\<lambda>u. \<not> ceq (id_of u) i) tbl) else Inl P2025)"

section \<open>The repository state and the cache helpers\<close>

text \<open>
  The state the repository works on: the table, the content of the Redis server, and the
  flag \<open>isConnected\<close> of the Redis client (redis.ts); the client object is never null once
  \<open>connect\<close> has run, so \<open>isReady()\<close> is the flag. A cached value is the JSON text of a
  row; parsing it gives the field values back (a date as its ISO text, which denotes the
  same instant), so the value is kept as the row. Expiry of an entry after its time to
  live and the connection events of the client are not steps of the repository: the
  flag does not change during an operation. The Primary Store is taken to be connected:
  a statement fails only by a constraint.
\<close>

record repo_state =
  users_table :: "user list"
  redis_store :: "string \<rightharpoonup> user"
  isConnected :: bool

datatype key_type = KId | KEmail

definition CACHE_PREFIX :: string where
  "CACHE_PREFIX = ''user''"

definition getCacheKey :: "string \<Rightarrow> key_type \<Rightarrow> string" where
  "getCacheKey identifier t =
     CACHE_PREFIX @ '':'' @ (case t of KId \<Rightarrow> ''id'' | KEmail \<Rightarrow> ''email'') @ '':'' @ identifier"

definition setCacheUser :: "user \<Rightarrow> repo_state \<Rightarrow> repo_state" where
  "setCacheUser u s =
     (if \<not> isConnected s then s
      else s\<lparr>redis_store :=
        ((redis_store s)(getCacheKey (id_of u) KId \<mapsto> u))(getCacheKey (email u) KEmail \<mapsto> u)\<rparr>)"

definition getCacheUser :: "string \<Rightarrow> key_type \<Rightarrow> repo_state \<Rightarrow> user option" where
  "getCacheUser identifier t s =
     (if \<not> isConnected s then None else redis_store s (getCacheKey identifier t))"

definition invalidateCacheUser :: "user \<Rightarrow> repo_state \<Rightarrow> repo_state" where
  "invalidateCacheUser u s =
     (if \<not> isConnected s then s
      else s\<lparr>redis_store :=
        ((redis_store s)(getCacheKey (id_of u) KId := None))(getCacheKey (email u) KEmail := None)\<rparr>)"

section \<open>The repository operations\<close>

text \<open>Each operation takes the state and returns its result with the new state. An
  operation that reads the clock takes the instant as an argument; the instants that one
  call reads (\<open>new Date()\<close> in \<open>softDelete\<close>, the stamps of the client and of the
  database) are taken to be one.\<close>

definition findById :: "string \<Rightarrow> repo_state \<Rightarrow> user option \<times> repo_state" where
  "findById i s =
     (case getCacheUser i KId s of
        Some cached \<Rightarrow> (Some cached, s)
      | None \<Rightarrow>
          (case findUnique_id i (users_table s) of
             Some u \<Rightarrow> (Some u, setCacheUser u s)
           | None \<Rightarrow> (None, s)))"

definition findByEmail :: "string \<Rightarrow> repo_state \<Rightarrow> user option \<times> repo_state" where
  "findByEmail e s =
     (case getCacheUser e KEmail s of
        Some cached \<Rightarrow> (Some cached, s)
      | None \<Rightarrow>
          (case findUnique_email e (users_table s) of
             Some u \<Rightarrow> (Some u, setCacheUser u s)
           | None \<Rightarrow> (None, s)))"

text \<open>What \<open>create\<close> takes from its environment: the identifier the client generates for
  the row, the digest \<open>bcrypt.hash(data.password, 12)\<close> and the time of the insert.\<close>

record create_env =
  new_id :: string
  hashed :: string
  now_at :: timestamp

definition new_row :: "CreateUserRequest \<Rightarrow> create_env \<Rightarrow> user" where
  "new_row d env =
     \<lparr> id_of = new_id env, first_name = c_first_name d, last_name = c_last_name d,
       email = c_email d, password = hashed env, is_active = True,
       created_at = now_at env, updated_at = now_at env, deleted_at = None \<rparr>"

definition create ::
  "CreateUserRequest \<Rightarrow> create_env \<Rightarrow> repo_state \<Rightarrow> (app_error + user) \<times> repo_state" where
  "create d env s =
     (case findByEmail (c_email d) s of
        (Some existingUser, s1) \<Rightarrow> (Inl ConflictError, s1)
      | (None, s1) \<Rightarrow>
          (case prisma_create (new_row d env) (users_table s1) of
             Inl err \<Rightarrow> (Inl DatabaseError, s1)
           | Inr tbl \<Rightarrow>
               (Inr (new_row d env), setCacheUser (new_row d env) (s1\<lparr>users_table := tbl\<rparr>))))"

definition update_data :: "UpdateUserRequest \<Rightarrow> user_update_input" where
  "update_data d =
     \<lparr> d_first_name = u_first_name d, d_last_name = u_last_name d, d_email = u_email d,
       d_is_active = u_is_active d, d_deleted_at = None \<rparr>"

text \<open>The email check of \<open>update\<close> runs when \<open>data.email\<close> is truthy (present and not
  the empty string) and differs from the current email as a JavaScript string;
  \<open>email_to_check\<close> is the email it then looks up.\<close>

definition email_to_check :: "UpdateUserRequest \<Rightarrow> user \<Rightarrow> string option" where
  "email_to_check d existingUser =
     (case u_email d of
        None \<Rightarrow> None
      | Some e \<Rightarrow> if e \<noteq> [] \<and> e \<noteq> email existingUser then Some e else None)"

definition update ::
  "string \<Rightarrow> UpdateUserRequest \<Rightarrow> timestamp \<Rightarrow> repo_state \<Rightarrow> (app_error + user) \<times> repo_state"
where
  "update i d now s =
     (case findById i s of
        (None, s1) \<Rightarrow> (Inl NotFoundError, s1)
      | (Some existingUser, s1) \<Rightarrow>
          (case (case email_to_check d existingUser of
                   None \<Rightarrow> (None, s1)
                 | Some e \<Rightarrow> findByEmail e s1) of
             (Some userWithEmail, s2) \<Rightarrow> (Inl ConflictError, s2)
           | (None, s2) \<Rightarrow>
               (let s3 = invalidateCacheUser existingUser s2 in
                case prisma_update i (update_data d) now (users_table s3) of
                  Inl err \<Rightarrow> (Inl DatabaseError, s3)
                | Inr (updatedUser, tbl) \<Rightarrow>
                    (Inr updatedUser, setCacheUser updatedUser (s3\<lparr>users_table := tbl\<rparr>)))))"

definition delete :: "string \<Rightarrow> repo_state \<Rightarrow> (app_error + unit) \<times> repo_state" where
  "delete i s =
     (case findById i s of
        (None, s1) \<Rightarrow> (Inl NotFoundError, s1)
      | (Some u, s1) \<Rightarrow>
          (let s2 = invalidateCacheUser u s1 in
           case prisma_delete i (users_table s2) of
             Inl err \<Rightarrow> (Inl DatabaseError, s2)
           | Inr tbl \<Rightarrow> (Inr (), s2\<lparr>users_table := tbl\<rparr>)))"

definition soft_delete_data :: "timestamp \<Rightarrow> user_update_input" where
  "soft_delete_data now =
     \<lparr> d_first_name = None, d_last_name = None, d_email = None, d_is_active = None,
       d_deleted_at = Some now \<rparr>"

definition softDelete ::
  "string \<Rightarrow> timestamp \<Rightarrow> repo_state \<Rightarrow> (app_error + unit) \<times> repo_state" where
  "softDelete i now s =
     (case findById i s of
        (None, s1) \<Rightarrow> (Inl NotFoundError, s1)
      | (Some u, s1) \<Rightarrow>
          (let s2 = invalidateCacheUser u s1 in
           case prisma_update i (soft_delete_data now) now (users_table s2) of
             Inl err \<Rightarrow> (Inl DatabaseError, s2)
           | Inr (updatedUser, tbl) \<Rightarrow> (Inr (), s2\<lparr>users_table := tbl\<rparr>)))"

text \<open>
  \<open>findMany\<close>. The client turns \<open>{ contains: q }\<close> into \<open>LIKE '%q%'\<close> and sends \<open>q\<close>
  as it is, so \<open>q\<close> is a pattern: \<open>%\<close> stands for any text, \<open>_\<close> for any one
  character, and a backslash makes the character after it literal (at the end of the
  pattern it stands for itself). \<open>like\<close> is that match; the table's collation makes it
  ignore letter case. \<open>q\<close> is spread into the filter only when it is truthy (present and
  not the empty string).
\<close>

datatype sort_order = Asc | Desc

datatype user_column =
  Col_id | Col_first_name | Col_last_name | Col_email | Col_password
  | Col_is_active | Col_created_at | Col_updated_at | Col_deleted_at

record UserSearchParams =
  p_page :: "nat option"
  p_limit :: "nat option"
  p_sort_by :: "user_column option"
  p_sort_order :: "sort_order option"
  p_q :: "string option"


fun like :: "string \<Rightarrow> string \<Rightarrow> bool" where
  "like [] t = (t = [])"
| "like (p # ps) t =
     (if p = CHR ''%'' then
        like ps t \<or> (case t of [] \<Rightarrow> False | c # ts \<Rightarrow> like (p # ps) ts)
      else if p = CHR ''_'' then
        (case t of [] \<Rightarrow> False | c # ts \<Rightarrow> like ps ts)
      else if p = CHR 0x5C then
        (case ps of
           [] \<Rightarrow> (case t of [] \<Rightarrow> False | c # ts \<Rightarrow> c = p \<and> ts = [])
         | e # rest \<Rightarrow> (case t of [] \<Rightarrow> False | c # ts \<Rightarrow> c = e \<and> like rest ts))
      else (case t of [] \<Rightarrow> False | c # ts \<Rightarrow> c = p \<and> like ps ts))"

definition contains :: "string \<Rightarrow> string \<Rightarrow> bool" where
  "contains w field \<longleftrightarrow> like (collate (''%'' @ w @ ''%'')) (collate field)"

definition q_filter :: "string option \<Rightarrow> user \<Rightarrow> bool" where
  "q_filter q u \<longleftrightarrow>
     (case q of
        None \<Rightarrow> True
      | Some w \<Rightarrow>
          w = [] \<or> contains w (first_name u) \<or> contains w (last_name u) \<or> contains w (email u))"

definition where_clause :: "string option \<Rightarrow> user \<Rightarrow> bool" where
  "where_clause q u \<longleftrightarrow> deleted_at u = None \<and> q_filter q u"


text \<open>
  \<open>orderBy: { [sort_by]: sort_order }\<close>. Text columns are ordered by their collation
  key. The database is free in the order of rows with equal keys, and may choose another
  one at every query: \<open>findMany\<close> takes that choice from its environment as a rank
  \<open>tie\<close> of the rows, and rows with equal keys come in the order of their ranks. Every
  arrangement of a table that is sorted by the key is the result for some rank (the
  position of the row in that arrangement).
\<close>

definition sort_rows :: "user_column \<Rightarrow> user list \<Rightarrow> user list" where
  "sort_rows c xs =
     (case c of
        Col_id \<Rightarrow> sort_key (\<lambda>u. collate (id_of u)) xs
      | Col_first_name \<Rightarrow> sort_key (\<lambda>u. collate (first_name u)) xs
      | Col_last_name \<Rightarrow> sort_key (\<lambda>u. collate (last_name u)) xs
      | Col_email \<Rightarrow> sort_key (\<lambda>u. collate (email u)) xs
      | Col_password \<Rightarrow> sort_key (\<lambda>u. collate (password u)) xs
      | Col_is_active \<Rightarrow> sort_key is_active xs
      | Col_created_at \<Rightarrow> sort_key created_at xs
      | Col_updated_at \<Rightarrow> sort_key updated_at xs
      | Col_deleted_at \<Rightarrow> sort_key deleted_at xs)"

definition order_by ::
  "user_column \<Rightarrow> sort_order \<Rightarrow> (user \<Rightarrow> nat) \<Rightarrow> user list \<Rightarrow> user list" where
  "order_by c ord tie xs =
     (case ord of
        Asc \<Rightarrow> sort_rows c (sort_key tie xs)
      | Desc \<Rightarrow> rev (sort_rows c (rev (sort_key tie xs))))"



text \<open>
  \<open>page\<close> and \<open>limit\<close> are JavaScript numbers with a non-negative integer value, and
  \<open>(page - 1) * limit\<close> is computed in double precision: \<open>js_round\<close> is the rounding of
  an integer to the nearest double (ties to even), which leaves an integer below
  \<open>2^53\<close> as it is. The client takes \<open>skip\<close> and \<open>take\<close> as signed 64-bit integers and
  refuses a negative \<open>skip\<close> (\<open>page = 0\<close> with a positive \<open>limit\<close>) and a value above
  \<open>i64_max\<close>; the catch turns the refusal into a \<open>DatabaseError\<close>.
\<close>

function bits :: "int \<Rightarrow> nat" where
  "bits n = (if n \<le> 0 then 0 else Suc (bits (n div 2)))"
  by pat_completeness auto
termination
  by (relation "measure nat") auto

definition js_round :: "int \<Rightarrow> int" where
  "js_round x =
     (if \<bar>x\<bar> < 9007199254740992 then x
      else
        (let e = bits \<bar>x\<bar> - 53; q = \<bar>x\<bar> div 2 ^ e; r = \<bar>x\<bar> mod 2 ^ e; half = 2 ^ (e - 1)
         in sgn x * ((if half < r \<or> (r = half \<and> odd q) then q + 1 else q) * 2 ^ e)))"

definition js_skip :: "nat \<Rightarrow> nat \<Rightarrow> int" where
  "js_skip page limit = js_round (js_round (int page - 1) * int limit)"

definition i64_max :: int where
  "i64_max = 9223372036854775807"

definition findMany ::
  "UserSearchParams \<Rightarrow> (user \<Rightarrow> nat) \<Rightarrow> repo_state \<Rightarrow>
     (app_error + user list \<times> nat) \<times> repo_state" where
  "findMany params tie s =
     (let page = (case p_page params of None \<Rightarrow> 1 | Some p \<Rightarrow> p);
          limit = (case p_limit params of None \<Rightarrow> 10 | Some l \<Rightarrow> l);
          sort_by = (case p_sort_by params of None \<Rightarrow> Col_created_at | Some c \<Rightarrow> c);
          sort_ord = (case p_sort_order params of None \<Rightarrow> Desc | Some ord \<Rightarrow> ord);
          skip = js_skip page limit
      in if skip < 0 \<or> i64_max < skip \<or> i64_max < int limit then (Inl DatabaseError, s)
         else
           (let matching = filter (where_clause (p_q params)) (users_table s)
            in (Inr (take limit (drop (nat skip) (order_by sort_by sort_ord tie matching)),
                     length matching), s)))"

section \<open>The service\<close>

text \<open>
  A user representation handed to a caller is a JavaScript object: its own properties in
  order. \<open>mapUserToResponse\<close> takes \<open>password\<close> and \<open>deleted_at\<close> out by destructuring
  and keeps the rest.
\<close>

datatype js_value = JString string | JBool bool | JDate timestamp | JNull

type_synonym js_object = "(string \<times> js_value) list"

definition user_object :: "user \<Rightarrow> js_object" where
  "user_object u =
     [(''id'', JString (id_of u)),
      (''first_name'', JString (first_name u)),
      (''last_name'', JString (last_name u)),
      (''email'', JString (email u)),
      (''password'', JString (password u)),
      (''is_active'', JBool (is_active u)),
      (''created_at'', JDate (created_at u)),
      (''updated_at'', JDate (updated_at u)),
      (''deleted_at'', (case deleted_at u of None \<Rightarrow> JNull | Some t \<Rightarrow> JDate t))]"

definition mapUserToResponse :: "user \<Rightarrow> js_object" where
  "mapUserToResponse u =
     filter (\<lambda>(k, v). k \<noteq> ''password'' \<and> k \<noteq> ''deleted_at'') (user_object u)"

definition createUser ::
  "CreateUserRequest \<Rightarrow> create_env \<Rightarrow> repo_state \<Rightarrow> (app_error + js_object) \<times> repo_state" where
  "createUser d env s =
     (case create d env s of
        (Inl e, s1) \<Rightarrow> (Inl e, s1)
      | (Inr u, s1) \<Rightarrow> (Inr (mapUserToResponse u), s1))"

definition getUserById :: "string \<Rightarrow> repo_state \<Rightarrow> (app_error + js_object) \<times> repo_state" where
  "getUserById i s =
     (case findById i s of
        (None, s1) \<Rightarrow> (Inl NotFoundError, s1)
      | (Some u, s1) \<Rightarrow> (Inr (mapUserToResponse u), s1))"

definition getUserByEmail :: "string \<Rightarrow> repo_state \<Rightarrow> js_object option \<times> repo_state" where
  "getUserByEmail e s =
     (case findByEmail e s of
        (None, s1) \<Rightarrow> (None, s1)
      | (Some u, s1) \<Rightarrow> (Some (mapUserToResponse u), s1))"

text \<open>\<open>Math.ceil(total / limit)\<close>: the division of two numbers is \<open>NaN\<close> for \<open>0 / 0\<close>,
  \<open>Infinity\<close> for a positive total over \<open>0\<close>, and the quotient otherwise.\<close>

datatype js_number = Num nat | PosInfinity | NaN

definition math_ceil_div :: "nat \<Rightarrow> nat \<Rightarrow> js_number" where
  "math_ceil_div total_n limit =
     (if limit = 0 then (if total_n = 0 then NaN else PosInfinity)
      else Num (nat \<lceil>real total_n / real limit\<rceil>))"

fun js_less :: "nat \<Rightarrow> js_number \<Rightarrow> bool" where
  "js_less p (Num n) = (p < n)"
| "js_less p PosInfinity = True"
| "js_less p NaN = False"

record pagination =
  pg_page :: nat
  pg_limit :: nat
  pg_total :: nat
  total_pages :: js_number
  has_next :: bool
  has_prev :: bool

definition getUsers ::
  "UserSearchParams \<Rightarrow> (user \<Rightarrow> nat) \<Rightarrow> repo_state \<Rightarrow>
     (app_error + js_object list \<times> pagination) \<times> repo_state"
where
  "getUsers params tie s =
     (let page = (case p_page params of None \<Rightarrow> 1 | Some p \<Rightarrow> p);
          limit = (case p_limit params of None \<Rightarrow> 10 | Some l \<Rightarrow> l)
      in case findMany params tie s of
           (Inl e, s1) \<Rightarrow> (Inl e, s1)
         | (Inr (users, total_n), s1) \<Rightarrow>
             (let totalPages = math_ceil_div total_n limit in
              (Inr (map mapUserToResponse users,
                    \<lparr> pg_page = page, pg_limit = limit, pg_total = total_n,
                      total_pages = totalPages, has_next = js_less page totalPages,
                      has_prev = (1 < page) \<rparr>), s1)))"

definition updateUser ::
  "string \<Rightarrow> UpdateUserRequest \<Rightarrow> timestamp \<Rightarrow> repo_state \<Rightarrow> (app_error + js_object) \<times> repo_state"
where
  "updateUser i d now s =
     (case update i d now s of
        (Inl e, s1) \<Rightarrow> (Inl e, s1)
      | (Inr u, s1) \<Rightarrow> (Inr (mapUserToResponse u), s1))"

definition deleteUser ::
  "string \<Rightarrow> bool \<Rightarrow> timestamp \<Rightarrow> repo_state \<Rightarrow> (app_error + unit) \<times> repo_state" where
  "deleteUser i soft now s = (if soft then softDelete i now s else delete i s)"

definition searchUsers ::
  "string \<Rightarrow> UserSearchParams \<Rightarrow> (user \<Rightarrow> nat) \<Rightarrow> repo_state \<Rightarrow>
     (app_error + js_object list \<times> pagination) \<times> repo_state" where
  "searchUsers query params tie s = getUsers (params\<lparr>p_q := Some query\<rparr>) tie s"

text \<open>The patch \<open>{ is_active: b }\<close> that \<open>activateUser\<close> and \<open>deactivateUser\<close> pass
  to \<open>update\<close>.\<close>

definition active_request :: "bool \<Rightarrow> UpdateUserRequest" where
  "active_request b =
     \<lparr> u_first_name = None, u_last_name = None, u_email = None, u_is_active = Some b \<rparr>"

definition activateUser ::
  "string \<Rightarrow> timestamp \<Rightarrow> repo_state \<Rightarrow> (app_error + js_object) \<times> repo_state" where
  "activateUser i now s =
     (case update i (active_request True) now s of
        (Inl e, s1) \<Rightarrow> (Inl e, s1)
      | (Inr u, s1) \<Rightarrow> (Inr (mapUserToResponse u), s1))"

definition deactivateUser ::
  "string \<Rightarrow> timestamp \<Rightarrow> repo_state \<Rightarrow> (app_error + js_object) \<times> repo_state" where
  "deactivateUser i now s =
     (case update i (active_request False) now s of
        (Inl e, s1) \<Rightarrow> (Inl e, s1)
      | (Inr u, s1) \<Rightarrow> (Inr (mapUserToResponse u), s1))"

section \<open>Invariants of the two stores\<close>

text \<open>
  What the primary key and the unique index keep true of the table: two different rows
  never agree on \<open>id\<close>, nor on \<open>email\<close>, under the collation.
\<close>

definition db_wf :: "user list \<Rightarrow> bool" where
  "db_wf tbl \<longleftrightarrow>
     (\<forall>u \<in> set tbl. \<forall>v \<in> set tbl.
        (ceq (id_of u) (id_of v) \<or> ceq (email u) (email v)) \<longrightarrow> u = v)"

text \<open>
  The cache mirrors the table: while the client is connected, an entry of the Redis
  server holds a row of the table that is not soft-deleted, under one of the two keys of
  that row. An empty cache satisfies this, and so does any state whose client is not
  connected.
\<close>

definition cache_consistent :: "repo_state \<Rightarrow> bool" where
  "cache_consistent s \<longleftrightarrow>
     (isConnected s \<longrightarrow>
        (\<forall>k v. redis_store s k = Some v \<longrightarrow>
           v \<in> set (users_table s) \<and> deleted_at v = None \<and>
           (k = getCacheKey (id_of v) KId \<or> k = getCacheKey (email v) KEmail)))"

definition repo_inv :: "repo_state \<Rightarrow> bool" where
  "repo_inv s \<longleftrightarrow> db_wf (users_table s) \<and> cache_consistent s"

text \<open>The state at start-up: an empty table, nothing cached, the cache connected or
  not.\<close>

definition fresh_state :: "bool \<Rightarrow> repo_state" where
  "fresh_state c = \<lparr> users_table = [], redis_store = Map.empty, isConnected = c \<rparr>"

section \<open>Sequences of repository operations\<close>

datatype repo_op =
  OpCreate CreateUserRequest create_env
  | OpFindById string
  | OpFindByEmail string
  | OpFindMany UserSearchParams "user \<Rightarrow> nat"
  | OpUpdate string UpdateUserRequest timestamp
  | OpDelete string
  | OpSoftDelete string timestamp

datatype op_result =
  ResUser "app_error + user"
  | ResLookup "user option"
  | ResMany "app_error + user list \<times> nat"
  | ResVoid "app_error + unit"

fun exec_op :: "repo_op \<Rightarrow> repo_state \<Rightarrow> op_result \<times> repo_state" where
  "exec_op (OpCreate d env) s = (case create d env s of (r, s1) \<Rightarrow> (ResUser r, s1))"
| "exec_op (OpFindById i) s = (case findById i s of (r, s1) \<Rightarrow> (ResLookup r, s1))"
| "exec_op (OpFindByEmail e) s = (case findByEmail e s of (r, s1) \<Rightarrow> (ResLookup r, s1))"
| "exec_op (OpFindMany params tie) s =
     (case findMany params tie s of (r, s1) \<Rightarrow> (ResMany r, s1))"
| "exec_op (OpUpdate i d now) s = (case update i d now s of (r, s1) \<Rightarrow> (ResUser r, s1))"
| "exec_op (OpDelete i) s = (case delete i s of (r, s1) \<Rightarrow> (ResVoid r, s1))"
| "exec_op (OpSoftDelete i now) s = (case softDelete i now s of (r, s1) \<Rightarrow> (ResVoid r, s1))"

fun run :: "repo_op list \<Rightarrow> repo_state \<Rightarrow> op_result list \<times> repo_state" where
  "run [] s = ([], s)"
| "run (op # ops) s =
     (case exec_op op s of
        (r, s1) \<Rightarrow> (case run ops s1 of (rs, s2) \<Rightarrow> (r # rs, s2)))"

text \<open>What claim C9 is about: an object has no \<open>password\<close> and no \<open>deleted_at\<close>
  property.\<close>

definition has_field :: "string \<Rightarrow> js_object \<Rightarrow> bool" where
  "has_field k obj \<longleftrightarrow> k \<in> set (map fst obj)"

definition stripped :: "js_object \<Rightarrow> bool" where
  "stripped obj \<longleftrightarrow> \<not> has_field ''password'' obj \<and> \<not> has_field ''deleted_at'' obj"

section \<open>Example rows, requests and states\<close>

definition row_ann :: user where
  "row_ann =
     \<lparr> id_of = ''u1'', first_name = ''Ann'', last_name = ''Lee'', email = ''ann@x.io'',
       password = ''h1'', is_active = True, created_at = 1, updated_at = 1,
       deleted_at = None \<rparr>"

definition row_bob :: user where
  "row_bob =
     \<lparr> id_of = ''u2'', first_name = ''Bob'', last_name = ''Ray'', email = ''bob@x.io'',
       password = ''h2'', is_active = True, created_at = 2, updated_at = 5,
       deleted_at = Some 5 \<rparr>"

text \<open>A table with one live row and one soft-deleted row, as the seed script or earlier
  requests leave it; \<open>seeded\<close> has nothing cached, \<open>warm\<close> has the live row cached.\<close>

definition seeded :: repo_state where
  "seeded = \<lparr> users_table = [row_ann, row_bob], redis_store = Map.empty, isConnected = True \<rparr>"

definition warm :: repo_state where
  "warm =
     \<lparr> users_table = [row_ann, row_bob],
       redis_store = [''user:id:u1'' \<mapsto> row_ann, ''user:email:ann@x.io'' \<mapsto> row_ann],
       isConnected = True \<rparr>"

definition req_ann :: CreateUserRequest where
  "req_ann =
     \<lparr> c_first_name = ''Anna'', c_last_name = ''Low'', c_email = ''ann@x.io'',
       c_password = ''Secret123'' \<rparr>"

definition req_bob :: CreateUserRequest where
  "req_bob =
     \<lparr> c_first_name = ''Bob'', c_last_name = ''Ray'', c_email = ''bob@x.io'',
       c_password = ''Secret456'' \<rparr>"

definition env3 :: create_env where
  "env3 = \<lparr> new_id = ''u3'', hashed = ''h3'', now_at = 9 \<rparr>"











text \<open>A database that takes rows with equal keys in the order of their creation.\<close>

definition by_creation :: "user \<Rightarrow> nat" where
  "by_creation u = created_at u"

definition page2 :: UserSearchParams where
  "page2 =
     \<lparr> p_page = Some 2, p_limit = Some 5, p_sort_by = Some Col_created_at,
       p_sort_order = Some Asc, p_q = None \<rparr>"

definition upd_email :: UpdateUserRequest where
  "upd_email =
     \<lparr> u_first_name = None, u_last_name = None, u_email = Some ''a@x.io'',
       u_is_active = None \<rparr>"

definition ops_demo :: "repo_op list" where
  "ops_demo =
     [OpFindById ''u1'', OpCreate req_bob env3, OpUpdate ''u1'' upd_email 10,
      OpFindByEmail ''ann@x.io'', OpSoftDelete ''u1'' 11, OpFindById ''u1'']"

lemmas example_defs =
  row_ann_def row_bob_def seeded_def warm_def req_ann_def req_bob_def env3_def

section \<open>Basic facts about the stores\<close>

lemma collate_examples:
  "collate ''u1'' = ''u1''" "collate ''u2'' = ''u2''" "collate ''u3'' = ''u3''"
  "collate ''ann@x.io'' = ''ann@x.io''" "collate ''bob@x.io'' = ''bob@x.io''"
  "collate ''a@x.io'' = ''a@x.io''"
  by (simp_all add: collate_def ci_char_def)

lemmas eval_defs =
  ceq_def getCacheKey_def CACHE_PREFIX_def getCacheUser_def
  setCacheUser_def invalidateCacheUser_def findUnique_id_def findUnique_email_def
  prisma_create_def prisma_update_def prisma_delete_def apply_update_def new_row_def
  update_data_def soft_delete_data_def email_to_check_def findById_def findByEmail_def
  create_def update_def delete_def softDelete_def collate_examples

lemma ceq_refl: "ceq a a" by (simp add: ceq_def)
lemma ceq_sym: "ceq a b \<Longrightarrow> ceq b a" by (simp add: ceq_def)
lemma ceq_trans: "ceq a b \<Longrightarrow> ceq b c \<Longrightarrow> ceq a c" by (simp add: ceq_def)

lemma getCacheKey_inj: "getCacheKey a t = getCacheKey b t' \<longleftrightarrow> a = b \<and> t = t'"
  by (cases t; cases t') (simp_all add: getCacheKey_def CACHE_PREFIX_def)

lemma find_unique:
  assumes "v \<in> set xs" "P v" "\<And>u. u \<in> set xs \<Longrightarrow> P u \<Longrightarrow> u = v"
  shows "find P xs = Some v"
proof (cases "find P xs")
  case None
  with assms(1,2) show ?thesis by (auto simp: find_None_iff)
next
  case (Some u)
  then have "u \<in> set xs" "P u" by (auto simp: find_Some_iff)
  with assms(3) Some show ?thesis by simp
qed

lemma findUnique_id_hit:
  assumes "db_wf tbl" "v \<in> set tbl" "deleted_at v = None" "ceq (id_of v) i"
  shows "findUnique_id i tbl = Some v"
  unfolding findUnique_id_def
proof (rule find_unique)
  show "v \<in> set tbl" by fact
  show "ceq (id_of v) i \<and> deleted_at v = None" using assms by simp
  fix u assume "u \<in> set tbl" "ceq (id_of u) i \<and> deleted_at u = None"
  then have "ceq (id_of u) (id_of v)" using assms(4) by (simp add: ceq_def)
  with assms(1,2) \<open>u \<in> set tbl\<close> show "u = v" unfolding db_wf_def by blast
qed

lemma findUnique_email_hit:
  assumes "db_wf tbl" "v \<in> set tbl" "deleted_at v = None" "ceq (email v) e"
  shows "findUnique_email e tbl = Some v"
  unfolding findUnique_email_def
proof (rule find_unique)
  show "v \<in> set tbl" by fact
  show "ceq (email v) e \<and> deleted_at v = None" using assms by simp
  fix u assume "u \<in> set tbl" "ceq (email u) e \<and> deleted_at u = None"
  then have "ceq (email u) (email v)" using assms(4) by (simp add: ceq_def)
  with assms(1,2) \<open>u \<in> set tbl\<close> show "u = v" unfolding db_wf_def by blast
qed

lemma findUnique_id_SomeD:
  "findUnique_id i tbl = Some u \<Longrightarrow> u \<in> set tbl \<and> ceq (id_of u) i \<and> deleted_at u = None"
  unfolding findUnique_id_def by (auto simp: find_Some_iff)

lemma findUnique_email_SomeD:
  "findUnique_email e tbl = Some u \<Longrightarrow> u \<in> set tbl \<and> ceq (email u) e \<and> deleted_at u = None"
  unfolding findUnique_email_def by (auto simp: find_Some_iff)

lemma findUnique_id_None:
  "findUnique_id i tbl = None \<longleftrightarrow> (\<forall>u \<in> set tbl. ceq (id_of u) i \<longrightarrow> deleted_at u \<noteq> None)"
  unfolding findUnique_id_def by (auto simp: find_None_iff)

lemma findUnique_email_None:
  "findUnique_email e tbl = None \<longleftrightarrow> (\<forall>u \<in> set tbl. ceq (email u) e \<longrightarrow> deleted_at u \<noteq> None)"
  unfolding findUnique_email_def by (auto simp: find_None_iff)

text \<open>Under the invariants a cache hit is the row that the table lookup would return.\<close>
lemma cache_hit_id:
  assumes "repo_inv s" "getCacheUser i KId s = Some v"
  shows "findUnique_id i (users_table s) = Some v"
proof -
  from assms(2) have c: "isConnected s" and r: "redis_store s (getCacheKey i KId) = Some v"
    by (auto simp: getCacheUser_def split: if_splits)
  from assms(1) c r have "v \<in> set (users_table s)" "deleted_at v = None"
    and "getCacheKey i KId = getCacheKey (id_of v) KId \<or> getCacheKey i KId = getCacheKey (email v) KEmail"
    unfolding repo_inv_def cache_consistent_def by blast+
  then have "id_of v = i" by (auto simp: getCacheKey_inj)
  with assms(1) \<open>v \<in> set (users_table s)\<close> \<open>deleted_at v = None\<close> show ?thesis
    by (intro findUnique_id_hit) (auto simp: repo_inv_def ceq_refl)
qed

lemma cache_hit_email:
  assumes "repo_inv s" "getCacheUser e KEmail s = Some v"
  shows "findUnique_email e (users_table s) = Some v"
proof -
  from assms(2) have c: "isConnected s" and r: "redis_store s (getCacheKey e KEmail) = Some v"
    by (auto simp: getCacheUser_def split: if_splits)
  from assms(1) c r have "v \<in> set (users_table s)" "deleted_at v = None"
    and "getCacheKey e KEmail = getCacheKey (id_of v) KId \<or> getCacheKey e KEmail = getCacheKey (email v) KEmail"
    unfolding repo_inv_def cache_consistent_def by blast+
  then have "email v = e" by (auto simp: getCacheKey_inj)
  with assms(1) \<open>v \<in> set (users_table s)\<close> \<open>deleted_at v = None\<close> show ?thesis
    by (intro findUnique_email_hit) (auto simp: repo_inv_def ceq_refl)
qed

lemma setCacheUser_table [simp]: "users_table (setCacheUser u s) = users_table s"
  and setCacheUser_conn [simp]: "isConnected (setCacheUser u s) = isConnected s"
  by (simp_all add: setCacheUser_def)

lemma invalidateCacheUser_table [simp]: "users_table (invalidateCacheUser u s) = users_table s"
  and invalidateCacheUser_conn [simp]: "isConnected (invalidateCacheUser u s) = isConnected s"
  by (simp_all add: invalidateCacheUser_def)

lemma setCacheUser_inv:
  assumes "repo_inv s" "u \<in> set (users_table s)" "deleted_at u = None"
  shows "repo_inv (setCacheUser u s)"
  using assms unfolding repo_inv_def cache_consistent_def setCacheUser_def
  by (auto split: if_splits)

lemma invalidateCacheUser_inv:
  assumes "repo_inv s"
  shows "repo_inv (invalidateCacheUser u s)"
  using assms unfolding repo_inv_def cache_consistent_def invalidateCacheUser_def
  by (auto split: if_splits)

text \<open>So the two point lookups return what the table holds, and they keep the
  invariants.\<close>
lemma findById_result:
  assumes "repo_inv s"
  shows "fst (findById i s) = findUnique_id i (users_table s)"
  using cache_hit_id[OF assms, of i]
  by (auto simp: findById_def split: option.splits)

lemma findById_table [simp]: "users_table (snd (findById i s)) = users_table s"
  and findById_conn [simp]: "isConnected (snd (findById i s)) = isConnected s"
  by (auto simp: findById_def split: option.splits)

lemma findById_inv:
  assumes "repo_inv s"
  shows "repo_inv (snd (findById i s))"
  using assms
  by (auto simp: findById_def split: option.splits dest!: findUnique_id_SomeD intro!: setCacheUser_inv)

lemma findByEmail_result:
  assumes "repo_inv s"
  shows "fst (findByEmail e s) = findUnique_email e (users_table s)"
  using cache_hit_email[OF assms, of e]
  by (auto simp: findByEmail_def split: option.splits)

lemma findByEmail_table [simp]: "users_table (snd (findByEmail e s)) = users_table s"
  and findByEmail_conn [simp]: "isConnected (snd (findByEmail e s)) = isConnected s"
  by (auto simp: findByEmail_def split: option.splits)

lemma findByEmail_inv:
  assumes "repo_inv s"
  shows "repo_inv (snd (findByEmail e s))"
  using assms
  by (auto simp: findByEmail_def split: option.splits dest!: findUnique_email_SomeD intro!: setCacheUser_inv)

section \<open>The statements of the client keep the table well formed\<close>

lemma db_wf_subset: "db_wf tbl \<Longrightarrow> set tbl' \<subseteq> set tbl \<Longrightarrow> db_wf tbl'"
  unfolding db_wf_def by blast

lemma prisma_create_wf:
  assumes "db_wf tbl" "prisma_create u tbl = Inr tbl'"
  shows "db_wf tbl'"
proof -
  from assms(2) have t: "tbl' = tbl @ [u]"
    and fresh: "\<forall>v \<in> set tbl. \<not> ceq (id_of v) (id_of u) \<and> \<not> ceq (email v) (email u)"
    by (auto simp: prisma_create_def list_ex_iff split: if_splits)
  from fresh have fresh': "\<forall>v \<in> set tbl. \<not> ceq (id_of u) (id_of v) \<and> \<not> ceq (email u) (email v)"
    by (auto dest: ceq_sym)
  show ?thesis using assms(1) fresh fresh' unfolding db_wf_def t by auto
qed

lemma apply_update_id [simp]: "id_of (apply_update d now u) = id_of u"
  by (simp add: apply_update_def)

lemma prisma_update_SomeD:
  assumes "prisma_update i d now tbl = Inr (u', tbl')"
  shows "\<exists>u. find (\<lambda>u. ceq (id_of u) i) tbl = Some u \<and> u' = apply_update d now u \<and>
             tbl' = map (\<lambda>v. if ceq (id_of v) i then u' else v) tbl \<and>
             (\<forall>v \<in> set tbl. \<not> ceq (id_of v) i \<longrightarrow> \<not> ceq (email v) (email u'))"
  using assms
  by (auto simp: prisma_update_def Let_def list_ex_iff split: option.splits if_splits)

lemma prisma_update_wf:
  assumes "db_wf tbl" "prisma_update i d now tbl = Inr (u', tbl')"
  shows "db_wf tbl'"
proof -
  from prisma_update_SomeD[OF assms(2)] obtain u where
    u: "find (\<lambda>u. ceq (id_of u) i) tbl = Some u" and u': "u' = apply_update d now u"
    and t: "tbl' = map (\<lambda>v. if ceq (id_of v) i then u' else v) tbl"
    and chk: "\<forall>v \<in> set tbl. \<not> ceq (id_of v) i \<longrightarrow> \<not> ceq (email v) (email u')"
    by blast
  from u have ui: "ceq (id_of u) i" by (auto simp: find_Some_iff)
  then have u'i: "ceq (id_of u') i" by (simp add: u')
  have mem: "\<And>x. x \<in> set tbl' \<Longrightarrow> x = u' \<or> (x \<in> set tbl \<and> \<not> ceq (id_of x) i)"
    unfolding t by auto
  show ?thesis unfolding db_wf_def
  proof (intro ballI impI)
    fix x y assume x: "x \<in> set tbl'" and y: "y \<in> set tbl'"
      and c: "ceq (id_of x) (id_of y) \<or> ceq (email x) (email y)"
    from mem[OF x] mem[OF y] show "x = y"
    proof (elim disjE conjE)
      assume "x = u'" "y = u'" then show ?thesis by simp
    next
      assume "x = u'" and yt: "y \<in> set tbl" and yn: "\<not> ceq (id_of y) i"
      with c u'i chk show ?thesis by (auto simp: ceq_def)
    next
      assume "y = u'" and xt: "x \<in> set tbl" and xn: "\<not> ceq (id_of x) i"
      with c u'i chk show ?thesis by (auto simp: ceq_def)
    next
      assume "x \<in> set tbl" "y \<in> set tbl"
      with c assms(1) show ?thesis unfolding db_wf_def by blast
    qed
  qed
qed

lemma prisma_delete_wf:
  assumes "db_wf tbl" "prisma_delete i tbl = Inr tbl'"
  shows "db_wf tbl'"
  using assms by (auto simp: prisma_delete_def split: if_splits intro: db_wf_subset)

text \<open>The row that a statement with \<open>where: { id }\<close> touches is the row that
  \<open>findById\<close> returned.\<close>
lemma find_id_existing:
  assumes "db_wf tbl" "findUnique_id i tbl = Some ex"
  shows "find (\<lambda>u. ceq (id_of u) i) tbl = Some ex"
proof (rule find_unique)
  from findUnique_id_SomeD[OF assms(2)] show "ex \<in> set tbl" and e: "ceq (id_of ex) i" by auto
  fix u assume "u \<in> set tbl" "ceq (id_of u) i"
  with e have "ceq (id_of u) (id_of ex)" by (simp add: ceq_def)
  with assms(1) \<open>u \<in> set tbl\<close> \<open>ex \<in> set tbl\<close> show "u = ex" unfolding db_wf_def by blast
qed

text \<open>After the invalidation no entry of a connected cache holds a row with that id.\<close>
lemma invalidate_purges:
  assumes "repo_inv s" "ex \<in> set (users_table s)" "isConnected s"
    "redis_store (invalidateCacheUser ex s) k = Some v"
  shows "v \<in> set (users_table s) \<and> deleted_at v = None \<and> \<not> ceq (id_of v) (id_of ex)"
proof -
  from assms(3,4) have k: "k \<noteq> getCacheKey (id_of ex) KId" "k \<noteq> getCacheKey (email ex) KEmail"
    and r: "redis_store s k = Some v"
    by (auto simp: invalidateCacheUser_def split: if_splits)
  from assms(1,3) r have v: "v \<in> set (users_table s)" "deleted_at v = None"
    and kk: "k = getCacheKey (id_of v) KId \<or> k = getCacheKey (email v) KEmail"
    unfolding repo_inv_def cache_consistent_def by blast+
  from k kk have "v \<noteq> ex" by auto
  with assms(1,2) v(1) have "\<not> ceq (id_of v) (id_of ex)"
    unfolding repo_inv_def db_wf_def by blast
  with v show ?thesis by simp
qed

text \<open>The table may change under a cache whose entries are all rows of the new table.\<close>
lemma table_change_inv:
  assumes "db_wf tbl'"
    "isConnected s \<Longrightarrow> (\<And>k v. redis_store s k = Some v \<Longrightarrow>
        v \<in> set tbl' \<and> deleted_at v = None \<and>
        (k = getCacheKey (id_of v) KId \<or> k = getCacheKey (email v) KEmail))"
  shows "repo_inv (s\<lparr>users_table := tbl'\<rparr>)"
  using assms unfolding repo_inv_def cache_consistent_def by auto

section \<open>What each operation returns and leaves behind\<close>

lemma findById_None:
  assumes "repo_inv s" "findUnique_id i (users_table s) = None"
  shows "findById i s = (None, s)"
proof (cases "getCacheUser i KId s")
  case None
  with assms(2) show ?thesis by (simp add: findById_def)
next
  case (Some v)
  from cache_hit_id[OF assms(1) Some] assms(2) show ?thesis by simp
qed

lemma findByEmail_None:
  assumes "repo_inv s" "findUnique_email e (users_table s) = None"
  shows "findByEmail e s = (None, s)"
proof (cases "getCacheUser e KEmail s")
  case None
  with assms(2) show ?thesis by (simp add: findByEmail_def)
next
  case (Some v)
  from cache_hit_email[OF assms(1) Some] assms(2) show ?thesis by simp
qed

lemma findById_Some:
  assumes "repo_inv s" "findUnique_id i (users_table s) = Some ex"
  shows "findById i s = (Some ex, snd (findById i s))"
  using findById_result[OF assms(1), of i] assms(2) by (cases "findById i s") simp

lemma findByEmail_Some:
  assumes "repo_inv s" "findUnique_email e (users_table s) = Some ex"
  shows "findByEmail e s = (Some ex, snd (findByEmail e s))"
  using findByEmail_result[OF assms(1), of e] assms(2) by (cases "findByEmail e s") simp

subsection \<open>create\<close>

lemma create_conflict:
  assumes "repo_inv s" "findUnique_email (c_email d) (users_table s) = Some ex"
  shows "create d env s = (Inl ConflictError, snd (findByEmail (c_email d) s))"
proof -
  obtain r s1 where f: "findByEmail (c_email d) s = (r, s1)" by (cases "findByEmail (c_email d) s")
  with findByEmail_result[OF assms(1), of "c_email d"] assms(2) have "r = Some ex" by simp
  with f show ?thesis by (simp add: create_def)
qed

lemma create_rejected:
  assumes "repo_inv s" "findUnique_email (c_email d) (users_table s) = None"
    "prisma_create (new_row d env) (users_table s) = Inl err"
  shows "create d env s = (Inl DatabaseError, s)"
  using findByEmail_None[OF assms(1,2)] assms(3) by (simp add: create_def)

lemma create_inserted:
  assumes "repo_inv s" "findUnique_email (c_email d) (users_table s) = None"
    "prisma_create (new_row d env) (users_table s) = Inr tbl"
  shows "create d env s =
    (Inr (new_row d env), setCacheUser (new_row d env) (s\<lparr>users_table := tbl\<rparr>))"
  using findByEmail_None[OF assms(1,2)] assms(3) by (simp add: create_def)

lemma create_inv:
  assumes "repo_inv s"
  shows "repo_inv (snd (create d env s))"
proof (cases "findUnique_email (c_email d) (users_table s)")
  case (Some ex)
  then show ?thesis using create_conflict[OF assms Some] findByEmail_inv[OF assms] by simp
next
  case None
  show ?thesis
  proof (cases "prisma_create (new_row d env) (users_table s)")
    case (Inl err)
    then show ?thesis using create_rejected[OF assms None Inl] assms by simp
  next
    case (Inr tbl)
    then have t: "tbl = users_table s @ [new_row d env]"
      by (auto simp: prisma_create_def split: if_splits)
    have wf: "db_wf tbl" using prisma_create_wf[OF _ Inr] assms by (simp add: repo_inv_def)
    have "repo_inv (s\<lparr>users_table := tbl\<rparr>)"
      using assms wf unfolding repo_inv_def cache_consistent_def t by auto
    then have "repo_inv (setCacheUser (new_row d env) (s\<lparr>users_table := tbl\<rparr>))"
      by (rule setCacheUser_inv) (simp_all add: t new_row_def)
    then show ?thesis using create_inserted[OF assms None Inr] by simp
  qed
qed

lemma create_conn [simp]: "isConnected (snd (create d env s)) = isConnected s"
  by (auto simp: create_def split: prod.splits option.splits sum.splits
      dest: arg_cong[where f="\<lambda>p. isConnected (snd p)"])

lemma prisma_update_same_email:
  assumes "db_wf tbl" "findUnique_id i tbl = Some ex" "ceq (email (apply_update d now ex)) (email ex)"
  shows "prisma_update i d now tbl =
    Inr (apply_update d now ex, map (\<lambda>v. if ceq (id_of v) i then apply_update d now ex else v) tbl)"
proof -
  from findUnique_id_SomeD[OF assms(2)] have ex: "ex \<in> set tbl" "ceq (id_of ex) i" by auto
  have "\<not> list_ex (\<lambda>v. \<not> ceq (id_of v) i \<and> ceq (email v) (email (apply_update d now ex))) tbl"
  proof
    assume "list_ex (\<lambda>v. \<not> ceq (id_of v) i \<and> ceq (email v) (email (apply_update d now ex))) tbl"
    then obtain v where v: "v \<in> set tbl" "\<not> ceq (id_of v) i"
      "ceq (email v) (email (apply_update d now ex))" by (auto simp: list_ex_iff)
    from v(3) assms(3) have "ceq (email v) (email ex)" by (rule ceq_trans)
    with assms(1) v(1) ex(1) have "v = ex" unfolding db_wf_def by blast
    with v(2) ex(2) show False by simp
  qed
  with find_id_existing[OF assms(1,2)] show ?thesis by (simp add: prisma_update_def Let_def)
qed

lemma prisma_delete_existing:
  assumes "findUnique_id i tbl = Some ex"
  shows "prisma_delete i tbl = Inr (filter (\<lambda>u. \<not> ceq (id_of u) i) tbl)"
proof -
  from findUnique_id_SomeD[OF assms] have "\<exists>u \<in> set tbl. ceq (id_of u) i" by blast
  then show ?thesis by (simp add: prisma_delete_def list_ex_iff)
qed

subsection \<open>update\<close>

lemma update_notfound:
  assumes "repo_inv s" "findUnique_id i (users_table s) = None"
  shows "update i d now s = (Inl NotFoundError, s)"
  using findById_None[OF assms] by (simp add: update_def)

lemma update_conflict:
  assumes "repo_inv s" "findUnique_id i (users_table s) = Some ex"
    "email_to_check d ex = Some e" "findUnique_email e (users_table s) = Some other"
  shows "update i d now s = (Inl ConflictError, snd (findByEmail e (snd (findById i s))))"
proof -
  obtain r s1 where f: "findById i s = (r, s1)" by (cases "findById i s")
  with findById_result[OF assms(1), of i] assms(2) have r: "r = Some ex" by simp
  have s1: "repo_inv s1" "users_table s1 = users_table s"
    using findById_inv[OF assms(1), of i] findById_table[of i s] f by simp_all
  obtain r2 s2 where g: "findByEmail e s1 = (r2, s2)" by (cases "findByEmail e s1")
  with findByEmail_result[OF s1(1), of e] assms(4) s1(2) have "r2 = Some other" by simp
  with f r g assms(3) show ?thesis by (simp add: update_def)
qed

lemma update_proceeds:
  assumes "repo_inv s" "findUnique_id i (users_table s) = Some ex"
    "\<And>e. email_to_check d ex = Some e \<Longrightarrow> findUnique_email e (users_table s) = None"
  shows "update i d now s =
    (case prisma_update i (update_data d) now (users_table s) of
       Inl err \<Rightarrow> (Inl DatabaseError, invalidateCacheUser ex (snd (findById i s)))
     | Inr (u', tbl) \<Rightarrow>
         (Inr u', setCacheUser u' ((invalidateCacheUser ex (snd (findById i s)))\<lparr>users_table := tbl\<rparr>)))"
proof -
  obtain r s1 where f: "findById i s = (r, s1)" by (cases "findById i s")
  with findById_result[OF assms(1), of i] assms(2) have r: "r = Some ex" by simp
  have s1: "repo_inv s1" "users_table s1 = users_table s"
    using findById_inv[OF assms(1), of i] findById_table[of i s] f by simp_all
  have chk: "(case email_to_check d ex of None \<Rightarrow> (None, s1) | Some e \<Rightarrow> findByEmail e s1) = (None, s1)"
  proof (cases "email_to_check d ex")
    case None then show ?thesis by simp
  next
    case (Some e)
    from assms(3)[OF Some] s1 have "findByEmail e s1 = (None, s1)"
      by (intro findByEmail_None) simp_all
    with Some show ?thesis by simp
  qed
  show ?thesis using f r chk s1(2)
    by (simp add: update_def split: sum.splits prod.splits)
qed

lemma update_conn [simp]: "isConnected (snd (update i d now s)) = isConnected s"
proof -
  obtain r s1 where f: "findById i s = (r, s1)" by (cases "findById i s")
  then have c1: "isConnected s1 = isConnected s" using findById_conn[of i s] by simp
  have c2: "\<And>e. isConnected (snd (findByEmail e s1)) = isConnected s" using c1 by simp
  show ?thesis using f c1 c2
    by (auto simp: update_def Let_def split: option.splits sum.splits prod.splits
        dest: arg_cong[where f="\<lambda>p. isConnected (snd p)"])
qed

lemma not_ceq_id_other:
  assumes "ceq (id_of ex) i" "\<not> ceq (id_of v) (id_of ex)"
  shows "\<not> ceq (id_of v) i"
  using assms by (auto simp: ceq_def)

lemma prisma_update_existing:
  assumes "db_wf tbl" "findUnique_id i tbl = Some ex" "prisma_update i d now tbl = Inr (u', tbl')"
  shows "u' = apply_update d now ex" "u' \<in> set tbl'"
    "tbl' = map (\<lambda>v. if ceq (id_of v) i then u' else v) tbl"
proof -
  from prisma_update_SomeD[OF assms(3)] find_id_existing[OF assms(1,2)]
  show a: "u' = apply_update d now ex" and t: "tbl' = map (\<lambda>v. if ceq (id_of v) i then u' else v) tbl"
    by auto
  from findUnique_id_SomeD[OF assms(2)] have "ex \<in> set tbl" "ceq (id_of ex) i" by auto
  then have "(\<lambda>v. if ceq (id_of v) i then u' else v) ex \<in> set tbl'" unfolding t by (intro imageI[of ex "set tbl", folded set_map])
  then show "u' \<in> set tbl'" using \<open>ceq (id_of ex) i\<close> by simp
qed

lemma update_table_inv:
  assumes "repo_inv s" "findUnique_id i (users_table s) = Some ex"
    "prisma_update i d now (users_table s) = Inr (u', tbl')"
  shows "repo_inv ((invalidateCacheUser ex s)\<lparr>users_table := tbl'\<rparr>)"
proof (rule table_change_inv)
  have wf: "db_wf (users_table s)" using assms(1) by (simp add: repo_inv_def)
  show "db_wf tbl'" using prisma_update_wf[OF wf assms(3)] .
  from findUnique_id_SomeD[OF assms(2)] have ex: "ex \<in> set (users_table s)" "ceq (id_of ex) i"
    by auto
  note t = prisma_update_existing(3)[OF wf assms(2,3)]
  fix k v
  assume c: "isConnected (invalidateCacheUser ex s)"
    and r: "redis_store (invalidateCacheUser ex s) k = Some v"
  from c have c': "isConnected s" by simp
  from invalidate_purges[OF assms(1) ex(1) c' r]
  have v: "v \<in> set (users_table s)" "deleted_at v = None" "\<not> ceq (id_of v) (id_of ex)" by auto
  from not_ceq_id_other[OF ex(2) v(3)] have ni: "\<not> ceq (id_of v) i" .
  from v(1) have "(\<lambda>v. if ceq (id_of v) i then u' else v) v \<in> set tbl'"
    unfolding t by (intro imageI[of v "set (users_table s)", folded set_map])
  with ni have "v \<in> set tbl'" by simp
  moreover from invalidateCacheUser_inv[OF assms(1), of ex] c r
  have "k = getCacheKey (id_of v) KId \<or> k = getCacheKey (email v) KEmail"
    unfolding repo_inv_def cache_consistent_def by blast
  ultimately show "v \<in> set tbl' \<and> deleted_at v = None \<and>
    (k = getCacheKey (id_of v) KId \<or> k = getCacheKey (email v) KEmail)" using v(2) by simp
qed

lemma delete_table_inv:
  assumes "repo_inv s" "findUnique_id i (users_table s) = Some ex"
  shows "repo_inv ((invalidateCacheUser ex s)\<lparr>users_table := filter (\<lambda>u. \<not> ceq (id_of u) i) (users_table s)\<rparr>)"
proof (rule table_change_inv)
  have wf: "db_wf (users_table s)" using assms(1) by (simp add: repo_inv_def)
  show "db_wf (filter (\<lambda>u. \<not> ceq (id_of u) i) (users_table s))"
    by (rule db_wf_subset[OF wf]) auto
  from findUnique_id_SomeD[OF assms(2)] have ex: "ex \<in> set (users_table s)" "ceq (id_of ex) i"
    by auto
  fix k v
  assume c: "isConnected (invalidateCacheUser ex s)"
    and r: "redis_store (invalidateCacheUser ex s) k = Some v"
  from c have c': "isConnected s" by simp
  from invalidate_purges[OF assms(1) ex(1) c' r]
  have v: "v \<in> set (users_table s)" "deleted_at v = None" "\<not> ceq (id_of v) (id_of ex)" by auto
  from not_ceq_id_other[OF ex(2) v(3)] have ni: "\<not> ceq (id_of v) i" .
  moreover from invalidateCacheUser_inv[OF assms(1), of ex] c r
  have "k = getCacheKey (id_of v) KId \<or> k = getCacheKey (email v) KEmail"
    unfolding repo_inv_def cache_consistent_def by blast
  ultimately show "v \<in> set (filter (\<lambda>u. \<not> ceq (id_of u) i) (users_table s)) \<and> deleted_at v = None \<and>
    (k = getCacheKey (id_of v) KId \<or> k = getCacheKey (email v) KEmail)" using v by simp
qed

lemma update_inv:
  assumes "repo_inv s"
  shows "repo_inv (snd (update i d now s))"
proof (cases "findUnique_id i (users_table s)")
  case None
  with update_notfound[OF assms None] assms show ?thesis by simp
next
  case (Some ex)
  let ?s1 = "snd (findById i s)"
  have s1: "repo_inv ?s1" "users_table ?s1 = users_table s"
    using findById_inv[OF assms] by simp_all
  show ?thesis
  proof (cases "\<exists>e other. email_to_check d ex = Some e \<and> findUnique_email e (users_table s) = Some other")
    case True
    then obtain e other where "email_to_check d ex = Some e" "findUnique_email e (users_table s) = Some other"
      by blast
    from update_conflict[OF assms Some this] findByEmail_inv[OF s1(1)] show ?thesis by simp
  next
    case False
    then have nc: "\<And>e. email_to_check d ex = Some e \<Longrightarrow> findUnique_email e (users_table s) = None"
      by (metis not_Some_eq)
    note u = update_proceeds[where now=now, OF assms Some nc]
    show ?thesis
    proof (cases "prisma_update i (update_data d) now (users_table s)")
      case (Inl err)
      with u invalidateCacheUser_inv[OF s1(1), of ex] show ?thesis by simp
    next
      case (Inr p)
      obtain u' tbl' where p: "p = (u', tbl')" by (cases p)
      have f1: "findUnique_id i (users_table ?s1) = Some ex" using Some s1(2) by simp
      have pu: "prisma_update i (update_data d) now (users_table ?s1) = Inr (u', tbl')"
        using Inr p s1(2) by simp
      have wf: "db_wf (users_table ?s1)" using s1(1) by (simp add: repo_inv_def)
      have inv3: "repo_inv ((invalidateCacheUser ex ?s1)\<lparr>users_table := tbl'\<rparr>)"
        by (rule update_table_inv[OF s1(1) f1 pu])
      from prisma_update_existing(1,2)[OF wf f1 pu] findUnique_id_SomeD[OF Some]
      have "u' \<in> set tbl'" "deleted_at u' = None"
        by (simp_all add: apply_update_def update_data_def)
      with inv3 have "repo_inv (setCacheUser u' ((invalidateCacheUser ex ?s1)\<lparr>users_table := tbl'\<rparr>))"
        by (intro setCacheUser_inv) simp_all
      with u Inr p show ?thesis by simp
    qed
  qed
qed

subsection \<open>delete and softDelete\<close>

lemma delete_notfound:
  assumes "repo_inv s" "findUnique_id i (users_table s) = None"
  shows "delete i s = (Inl NotFoundError, s)"
  using findById_None[OF assms] by (simp add: delete_def)

lemma delete_done:
  assumes "repo_inv s" "findUnique_id i (users_table s) = Some ex"
  shows "delete i s =
    (Inr (), (invalidateCacheUser ex (snd (findById i s)))
               \<lparr>users_table := filter (\<lambda>u. \<not> ceq (id_of u) i) (users_table s)\<rparr>)"
proof -
  obtain r s1 where f: "findById i s = (r, s1)" by (cases "findById i s")
  with findById_result[OF assms(1), of i] assms(2) have r: "r = Some ex" by simp
  have s1: "users_table s1 = users_table s" using findById_table[of i s] f by simp
  show ?thesis using f r s1 prisma_delete_existing[OF assms(2)] by (simp add: delete_def)
qed

lemma delete_inv:
  assumes "repo_inv s"
  shows "repo_inv (snd (delete i s))"
proof (cases "findUnique_id i (users_table s)")
  case None
  with delete_notfound[OF assms None] assms show ?thesis by simp
next
  case (Some ex)
  have s1: "repo_inv (snd (findById i s))" using findById_inv[OF assms] .
  have f1: "findUnique_id i (users_table (snd (findById i s))) = Some ex" using Some by simp
  from delete_table_inv[OF s1 f1] delete_done[OF assms Some] show ?thesis by simp
qed

lemma delete_conn [simp]: "isConnected (snd (delete i s)) = isConnected s"
proof -
  obtain r s1 where f: "findById i s = (r, s1)" by (cases "findById i s")
  then have c1: "isConnected s1 = isConnected s" using findById_conn[of i s] by simp
  show ?thesis using f c1
    by (auto simp: delete_def Let_def split: option.splits sum.splits prod.splits)
qed

lemma softDelete_notfound:
  assumes "repo_inv s" "findUnique_id i (users_table s) = None"
  shows "softDelete i now s = (Inl NotFoundError, s)"
  using findById_None[OF assms] by (simp add: softDelete_def)

lemma softDelete_done:
  assumes "repo_inv s" "findUnique_id i (users_table s) = Some ex"
  shows "softDelete i now s =
    (Inr (), (invalidateCacheUser ex (snd (findById i s)))
               \<lparr>users_table :=
                  map (\<lambda>v. if ceq (id_of v) i then apply_update (soft_delete_data now) now ex else v)
                    (users_table s)\<rparr>)"
proof -
  obtain r s1 where f: "findById i s = (r, s1)" by (cases "findById i s")
  with findById_result[OF assms(1), of i] assms(2) have r: "r = Some ex" by simp
  have s1: "users_table s1 = users_table s" using findById_table[of i s] f by simp
  have wf: "db_wf (users_table s)" using assms(1) by (simp add: repo_inv_def)
  have "ceq (email (apply_update (soft_delete_data now) now ex)) (email ex)"
    by (simp add: apply_update_def soft_delete_data_def ceq_refl)
  from prisma_update_same_email[OF wf assms(2) this] f r s1
  show ?thesis by (simp add: softDelete_def)
qed

lemma softDelete_inv:
  assumes "repo_inv s"
  shows "repo_inv (snd (softDelete i now s))"
proof (cases "findUnique_id i (users_table s)")
  case None
  with softDelete_notfound[OF assms None] assms show ?thesis by simp
next
  case (Some ex)
  let ?s1 = "snd (findById i s)"
  have s1: "repo_inv ?s1" using findById_inv[OF assms] .
  have f1: "findUnique_id i (users_table ?s1) = Some ex" using Some by simp
  have wf: "db_wf (users_table ?s1)" using s1 by (simp add: repo_inv_def)
  have "ceq (email (apply_update (soft_delete_data now) now ex)) (email ex)"
    by (simp add: apply_update_def soft_delete_data_def ceq_refl)
  from update_table_inv[OF s1 f1 prisma_update_same_email[OF wf f1 this]]
    softDelete_done[OF assms Some, of now]
  show ?thesis by simp
qed

lemma softDelete_conn [simp]: "isConnected (snd (softDelete i now s)) = isConnected s"
proof -
  obtain r s1 where f: "findById i s = (r, s1)" by (cases "findById i s")
  then have c1: "isConnected s1 = isConnected s" using findById_conn[of i s] by simp
  show ?thesis using f c1
    by (auto simp: softDelete_def Let_def split: option.splits sum.splits prod.splits)
qed

subsection \<open>findMany\<close>

lemma findMany_state [simp]: "snd (findMany params tie s) = s"
  by (simp add: findMany_def Let_def)

lemma findMany_table_only:
  "users_table s = users_table s' \<Longrightarrow>
     fst (findMany params tie s) = fst (findMany params tie s')"
  by (simp add: findMany_def Let_def)

subsection \<open>Two states with the same table\<close>

lemma create_same_table:
  assumes a: "repo_inv a" and b: "repo_inv b" and t: "users_table a = users_table b"
  shows "fst (create d env a) = fst (create d env b) \<and>
         users_table (snd (create d env a)) = users_table (snd (create d env b))"
proof (cases "findUnique_email (c_email d) (users_table a)")
  case (Some ex)
  from create_conflict[OF a Some] create_conflict[OF b Some[unfolded t]] t
  show ?thesis by simp
next
  case None
  show ?thesis
  proof (cases "prisma_create (new_row d env) (users_table a)")
    case (Inl err)
    from create_rejected[OF a None Inl] create_rejected[OF b None[unfolded t] Inl[unfolded t]] t
    show ?thesis by simp
  next
    case (Inr tbl)
    from create_inserted[OF a None Inr] create_inserted[OF b None[unfolded t] Inr[unfolded t]]
    show ?thesis by simp
  qed
qed

lemma update_same_table:
  assumes a: "repo_inv a" and b: "repo_inv b" and t: "users_table a = users_table b"
  shows "fst (update i d now a) = fst (update i d now b) \<and>
         users_table (snd (update i d now a)) = users_table (snd (update i d now b))"
proof (cases "findUnique_id i (users_table a)")
  case None
  from update_notfound[OF a None] update_notfound[OF b None[unfolded t]] t
  show ?thesis by simp
next
  case (Some ex)
  show ?thesis
  proof (cases "\<exists>e other. email_to_check d ex = Some e \<and> findUnique_email e (users_table a) = Some other")
    case True
    then obtain e other where c: "email_to_check d ex = Some e"
      and o: "findUnique_email e (users_table a) = Some other" by blast
    from update_conflict[OF a Some c o] update_conflict[OF b Some[unfolded t] c o[unfolded t]] t
    show ?thesis by simp
  next
    case False
    then have nc: "\<And>e. email_to_check d ex = Some e \<Longrightarrow> findUnique_email e (users_table a) = None"
      by (metis not_Some_eq)
    note ua = update_proceeds[where now=now, OF a Some nc]
    note ub = update_proceeds[where now=now, OF b Some[unfolded t] nc[unfolded t]]
    show ?thesis
    proof (cases "prisma_update i (update_data d) now (users_table a)")
      case (Inl err)
      with ua ub t show ?thesis by simp
    next
      case (Inr p)
      with ua ub t show ?thesis by (cases p) simp
    qed
  qed
qed

lemma delete_same_table:
  assumes a: "repo_inv a" and b: "repo_inv b" and t: "users_table a = users_table b"
  shows "fst (delete i a) = fst (delete i b) \<and>
         users_table (snd (delete i a)) = users_table (snd (delete i b))"
proof (cases "findUnique_id i (users_table a)")
  case None
  from delete_notfound[OF a None] delete_notfound[OF b None[unfolded t]] t
  show ?thesis by simp
next
  case (Some ex)
  from delete_done[OF a Some] delete_done[OF b Some[unfolded t]] t
  show ?thesis by simp
qed

lemma softDelete_same_table:
  assumes a: "repo_inv a" and b: "repo_inv b" and t: "users_table a = users_table b"
  shows "fst (softDelete i now a) = fst (softDelete i now b) \<and>
         users_table (snd (softDelete i now a)) = users_table (snd (softDelete i now b))"
proof (cases "findUnique_id i (users_table a)")
  case None
  from softDelete_notfound[OF a None] softDelete_notfound[OF b None[unfolded t]] t
  show ?thesis by simp
next
  case (Some ex)
  from softDelete_done[OF a Some] softDelete_done[OF b Some[unfolded t]] t
  show ?thesis by simp
qed

lemma exec_op_same_table:
  assumes a: "repo_inv a" and b: "repo_inv b" and t: "users_table a = users_table b"
  shows "fst (exec_op op a) = fst (exec_op op b) \<and>
         users_table (snd (exec_op op a)) = users_table (snd (exec_op op b))"
proof (cases op)
  case (OpCreate d env)
  with create_same_table[OF a b t, of d env] show ?thesis by (simp add: split_beta)
next
  case (OpFindById i)
  with findById_result[OF a, of i] findById_result[OF b, of i] t findById_table[of i a] findById_table[of i b]
  show ?thesis by (simp add: split_beta)
next
  case (OpFindByEmail e)
  with findByEmail_result[OF a, of e] findByEmail_result[OF b, of e] t
    findByEmail_table[of e a] findByEmail_table[of e b]
  show ?thesis by (simp add: split_beta)
next
  case (OpFindMany params tie)
  with findMany_table_only[OF t, of params tie] findMany_state[of params tie a]
    findMany_state[of params tie b] t
  show ?thesis by (simp add: split_beta)
next
  case (OpUpdate i d now)
  with update_same_table[OF a b t, of i d now] show ?thesis by (simp add: split_beta)
next
  case (OpDelete i)
  with delete_same_table[OF a b t, of i] show ?thesis by (simp add: split_beta)
next
  case (OpSoftDelete i now)
  with softDelete_same_table[OF a b t, of i now] show ?thesis by (simp add: split_beta)
qed

lemma exec_op_inv:
  assumes "repo_inv s"
  shows "repo_inv (snd (exec_op op s))"
proof (cases op)
  case (OpCreate d env) with create_inv[OF assms, of d env] show ?thesis by (simp add: split_beta)
next
  case (OpFindById i) with findById_inv[OF assms, of i] show ?thesis by (simp add: split_beta)
next
  case (OpFindByEmail e) with findByEmail_inv[OF assms, of e] show ?thesis by (simp add: split_beta)
next
  case (OpFindMany params tie)
  with assms findMany_state[of params tie s] show ?thesis by (simp add: split_beta)
next
  case (OpUpdate i d now) with update_inv[OF assms, of i d now] show ?thesis by (simp add: split_beta)
next
  case (OpDelete i) with delete_inv[OF assms, of i] show ?thesis by (simp add: split_beta)
next
  case (OpSoftDelete i now) with softDelete_inv[OF assms, of i now] show ?thesis by (simp add: split_beta)
qed

text \<open>Every state that the repository reaches from start-up satisfies the
  invariants.\<close>

lemma run_inv:
  assumes "repo_inv s"
  shows "repo_inv (snd (run ops s))"
  using assms
proof (induction ops arbitrary: s)
  case Nil
  then show ?case by simp
next
  case (Cons op ops)
  from Cons.IH[OF exec_op_inv[OF Cons.prems, of op]] show ?case by (simp add: split_beta)
qed

lemma fresh_state_inv: "repo_inv (fresh_state c)"
  by (simp add: repo_inv_def db_wf_def cache_consistent_def fresh_state_def)

lemma reachable_inv: "repo_inv (snd (run ops (fresh_state c)))"
  by (rule run_inv[OF fresh_state_inv])

lemma exec_op_conn [simp]: "isConnected (snd (exec_op op s)) = isConnected s"
proof (cases op)
  case (OpCreate d env) with create_conn[of d env s] show ?thesis by (simp add: split_beta)
next
  case (OpFindById i) with findById_conn[of i s] show ?thesis by (simp add: split_beta)
next
  case (OpFindByEmail e) with findByEmail_conn[of e s] show ?thesis by (simp add: split_beta)
next
  case (OpFindMany params tie)
  with findMany_state[of params tie s] show ?thesis by (simp add: split_beta)
next
  case (OpUpdate i d now) with update_conn[of i d now s] show ?thesis by (simp add: split_beta)
next
  case (OpDelete i) with delete_conn[of i s] show ?thesis by (simp add: split_beta)
next
  case (OpSoftDelete i now) with softDelete_conn[of i now s] show ?thesis by (simp add: split_beta)
qed

lemma run_same_table:
  assumes "repo_inv a" "repo_inv b" "users_table a = users_table b"
  shows "fst (run ops a) = fst (run ops b) \<and>
         users_table (snd (run ops a)) = users_table (snd (run ops b))"
  using assms
proof (induction ops arbitrary: a b)
  case Nil
  then show ?case by simp
next
  case (Cons op ops)
  obtain ra a1 where ea: "exec_op op a = (ra, a1)" by (cases "exec_op op a")
  obtain rb b1 where eb: "exec_op op b = (rb, b1)" by (cases "exec_op op b")
  from exec_op_same_table[OF Cons.prems, of op] ea eb
  have r: "ra = rb" and t1: "users_table a1 = users_table b1" by simp_all
  from exec_op_inv[OF Cons.prems(1), of op] ea have ia: "repo_inv a1" by simp
  from exec_op_inv[OF Cons.prems(2), of op] eb have ib: "repo_inv b1" by simp
  from Cons.IH[OF ia ib t1] ea eb r show ?case by (simp add: split_beta)
qed

subsection \<open>Successful calls\<close>



lemma mset_sort_rows [simp]: "mset (sort_rows c xs) = mset xs"
  by (cases c) (simp_all add: sort_rows_def)

lemma mset_order_by [simp]: "mset (order_by c ord tie xs) = mset xs"
  by (cases ord) (simp_all add: order_by_def)


lemma set_order_by [simp]: "set (order_by c ord tie xs) = set xs"
  using mset_order_by[of c ord tie xs] by (metis set_mset_mset)

lemma length_order_by [simp]: "length (order_by c ord tie xs) = length xs"
  using mset_order_by[of c ord tie xs] by (metis size_mset)

lemma findMany_users_matching:
  assumes "fst (findMany params tie s) = Inr (users, n)" "v \<in> set users"
  shows "v \<in> set (users_table s) \<and> where_clause (p_q params) v"
proof -
  from assms(1) have "set users \<subseteq> set (filter (where_clause (p_q params)) (users_table s))"
    by (auto simp: findMany_def Let_def split: if_splits dest!: in_set_takeD in_set_dropD)
  with assms(2) show ?thesis by auto
qed

lemma softDelete_success:
  assumes "repo_inv s" "u \<in> set (users_table s)" "softDelete (id_of u) now s = (Inr (), s')"
  shows "findUnique_id (id_of u) (users_table s) = Some u"
    and "s' = (invalidateCacheUser u (snd (findById (id_of u) s)))
               \<lparr>users_table :=
                  map (\<lambda>v. if ceq (id_of v) (id_of u) then apply_update (soft_delete_data now) now u else v)
                    (users_table s)\<rparr>"
proof -
  have wf: "db_wf (users_table s)" using assms(1) by (simp add: repo_inv_def)
  obtain ex where ex: "findUnique_id (id_of u) (users_table s) = Some ex"
    using softDelete_notfound[OF assms(1), of "id_of u" now] assms(3)
    by (cases "findUnique_id (id_of u) (users_table s)") auto
  from findUnique_id_SomeD[OF ex] assms(2) wf have "ex = u" unfolding db_wf_def by blast
  with ex show f: "findUnique_id (id_of u) (users_table s) = Some u" by simp
  from softDelete_done[OF assms(1) f, of now] assms(3)
  show "s' = (invalidateCacheUser u (snd (findById (id_of u) s)))
               \<lparr>users_table :=
                  map (\<lambda>v. if ceq (id_of v) (id_of u) then apply_update (soft_delete_data now) now u else v)
                    (users_table s)\<rparr>" by simp
qed

lemma collate_Nil [simp]:
  "collate w = [] \<longleftrightarrow> w = []" "[] = collate w \<longleftrightarrow> w = []" "collate [] = []"
  by (auto simp: collate_def)

lemma update_success:
  assumes "repo_inv s" "findUnique_id i (users_table s) = Some ex"
    "update i d now s = (Inr u', s')"
  shows "\<And>e. email_to_check d ex = Some e \<Longrightarrow> findUnique_email e (users_table s) = None"
    and "\<exists>tbl'. prisma_update i (update_data d) now (users_table s) = Inr (u', tbl') \<and>
          s' = setCacheUser u' ((invalidateCacheUser ex (snd (findById i s)))\<lparr>users_table := tbl'\<rparr>)"
proof -
  show nc: "\<And>e. email_to_check d ex = Some e \<Longrightarrow> findUnique_email e (users_table s) = None"
  proof -
    fix e assume c: "email_to_check d ex = Some e"
    show "findUnique_email e (users_table s) = None"
    proof (cases "findUnique_email e (users_table s)")
      case None then show ?thesis .
    next
      case (Some other)
      from update_conflict[OF assms(1,2) c Some, of now] assms(3) show ?thesis by simp
    qed
  qed
  from update_proceeds[where now=now, OF assms(1,2) nc] assms(3)
  show "\<exists>tbl'. prisma_update i (update_data d) now (users_table s) = Inr (u', tbl') \<and>
          s' = setCacheUser u' ((invalidateCacheUser ex (snd (findById i s)))\<lparr>users_table := tbl'\<rparr>)"
    by (auto split: sum.splits)
qed

lemma mapUserToResponse_fields:
  "map fst (mapUserToResponse u) =
     [''id'', ''first_name'', ''last_name'', ''email'', ''is_active'', ''created_at'', ''updated_at'']"
  by (simp add: mapUserToResponse_def user_object_def)

lemma mapUserToResponse_stripped: "stripped (mapUserToResponse u)"
  by (simp add: stripped_def has_field_def mapUserToResponse_fields)


lemma where_clause_live: "where_clause q u \<Longrightarrow> deleted_at u = None"
  by (simp add: where_clause_def)

lemma filter_where_live:
  "filter (where_clause q) xs = filter (where_clause q) (filter (\<lambda>u. deleted_at u = None) xs)"
  by (induction xs) (auto dest: where_clause_live)

lemma set_active_once:
  assumes "repo_inv s" "findUnique_id i (users_table s) = Some ex"
  shows "\<exists>s'. update i (active_request b) now s = (Inr (ex\<lparr>is_active := b, updated_at := now\<rparr>), s') \<and>
           users_table s' =
             map (\<lambda>v. if ceq (id_of v) i then ex\<lparr>is_active := b, updated_at := now\<rparr> else v)
               (users_table s) \<and>
           repo_inv s' \<and>
           findUnique_id i (users_table s') = Some (ex\<lparr>is_active := b, updated_at := now\<rparr>)"
proof -
  let ?u = "ex\<lparr>is_active := b, updated_at := now\<rparr>"
  let ?tbl = "map (\<lambda>v. if ceq (id_of v) i then ?u else v) (users_table s)"
  have wf: "db_wf (users_table s)" using assms(1) by (simp add: repo_inv_def)
  from findUnique_id_SomeD[OF assms(2)]
  have ex: "ex \<in> set (users_table s)" "ceq (id_of ex) i" "deleted_at ex = None" by auto
  have au: "apply_update (update_data (active_request b)) now ex = ?u"
    by (simp add: apply_update_def update_data_def active_request_def)
  have "ceq (email (apply_update (update_data (active_request b)) now ex)) (email ex)"
    by (simp add: au ceq_refl)
  from prisma_update_same_email[OF wf assms(2) this]
  have pu: "prisma_update i (update_data (active_request b)) now (users_table s) = Inr (?u, ?tbl)"
    by (simp add: au)
  have nc: "\<And>e. email_to_check (active_request b) ex = Some e \<Longrightarrow>
      findUnique_email e (users_table s) = None"
    by (simp add: email_to_check_def active_request_def)
  from update_proceeds[where now=now, OF assms nc] pu
  have up: "update i (active_request b) now s =
      (Inr ?u, setCacheUser ?u ((invalidateCacheUser ex (snd (findById i s)))\<lparr>users_table := ?tbl\<rparr>))"
    by simp
  let ?s' = "setCacheUser ?u ((invalidateCacheUser ex (snd (findById i s)))\<lparr>users_table := ?tbl\<rparr>)"
  have t: "users_table ?s' = ?tbl" by simp
  have inv: "repo_inv ?s'" using update_inv[OF assms(1), of i "active_request b" now] up by simp
  have "?u \<in> set ?tbl" using prisma_update_existing(2)[OF wf assms(2) pu] .
  with inv t ex(2,3) have "findUnique_id i (users_table ?s') = Some ?u"
    by (intro findUnique_id_hit) (simp_all add: repo_inv_def)
  with up t inv show ?thesis by blast
qed

section \<open>The claims about create\<close>

lemma repo_inv_seeded: "repo_inv seeded"
  by (simp add: repo_inv_def db_wf_def cache_consistent_def example_defs eval_defs)

lemma repo_inv_warm: "repo_inv warm"
  by (auto simp: repo_inv_def db_wf_def cache_consistent_def example_defs eval_defs split: if_splits)

text \<open>
  Claim C1, as amended. When the email pre-check of \<open>create\<close> finds no user and the
  insert is then refused by the store, the refusal is a unique-constraint failure, \<open>create\<close>
  fails with \<open>DatabaseError\<close> (the catch rethrows a \<open>ConflictError\<close> only, and the
  client's own error is not one), and no row has been written.
\<close>

theorem create_constraint_rejection_is_DatabaseError:
  assumes "findByEmail (c_email d) s = (None, s1)"
    and "prisma_create (new_row d env) (users_table s1) = Inl err"
  shows "create d env s = (Inl DatabaseError, s1) \<and> users_table s1 = users_table s \<and> err = P2002"
proof -
  have "users_table s1 = users_table s"
    using findByEmail_table[of "c_email d" s] assms(1) by simp
  moreover have "err = P2002" using assms(2) by (auto simp: prisma_create_def split: if_splits)
  ultimately show ?thesis using assms by (simp add: create_def)
qed

theorem create_constraint_rejection_is_DatabaseError_witness:
  "findByEmail (c_email req_bob) seeded = (None, seeded) \<and>
   prisma_create (new_row req_bob env3) (users_table seeded) = Inl P2002 \<and>
   create req_bob env3 seeded = (Inl DatabaseError, seeded)"
proof -
  have a: "findByEmail (c_email req_bob) seeded = (None, seeded)"
    by (simp add: example_defs eval_defs)
  have b: "prisma_create (new_row req_bob env3) (users_table seeded) = Inl P2002"
    by (simp add: example_defs eval_defs)
  from create_constraint_rejection_is_DatabaseError[OF a b] a b show ?thesis by simp
qed

text \<open>Claim C1 as stated fails: with the soft-deleted row of Bob in the table, the
  pre-check finds nothing, the unique index refuses the insert, and the error that
  \<open>create\<close> raises is \<open>DatabaseError\<close>.\<close>

theorem create_race_not_ConflictError_counterexample:
  "fst (findByEmail (c_email req_bob) warm) = None \<and>
   prisma_create (new_row req_bob env3) (users_table (snd (findByEmail (c_email req_bob) warm)))
     = Inl P2002 \<and>
   fst (create req_bob env3 warm) \<noteq> Inl ConflictError \<and>
   fst (create req_bob env3 warm) = Inl DatabaseError"
  by (simp add: example_defs eval_defs)

text \<open>
  Claim C2, as amended. When a row that is not soft-deleted holds \<open>data.email\<close>,
  \<open>create\<close> fails with \<open>ConflictError\<close> and the table is unchanged. The state is
  unchanged altogether when the pre-check is answered by the cache; when it falls through
  to the store, the row found there is written to the cache under its two keys, and that
  is the only change.
\<close>

theorem create_existing_email:
  assumes "ex \<in> set (users_table s)" and "email ex = c_email d" and "deleted_at ex = None"
  shows "fst (create d env s) = Inl ConflictError \<and>
         users_table (snd (create d env s)) = users_table s \<and>
         (getCacheUser (c_email d) KEmail s \<noteq> None \<longrightarrow> snd (create d env s) = s) \<and>
         (getCacheUser (c_email d) KEmail s = None \<longrightarrow>
            (\<exists>u. findUnique_email (c_email d) (users_table s) = Some u \<and>
                 snd (create d env s) = setCacheUser u s))"
proof -
  from assms have "\<exists>u \<in> set (users_table s). ceq (email u) (c_email d) \<and> deleted_at u = None"
    by (intro bexI[of _ ex]) (simp_all add: ceq_refl)
  then have "findUnique_email (c_email d) (users_table s) \<noteq> None"
    unfolding findUnique_email_None by blast
  then obtain u where u: "findUnique_email (c_email d) (users_table s) = Some u" by auto
  show ?thesis
  proof (cases "getCacheUser (c_email d) KEmail s")
    case None
    with u show ?thesis by (simp add: create_def findByEmail_def)
  next
    case (Some c)
    then show ?thesis by (simp add: create_def findByEmail_def)
  qed
qed

theorem create_existing_email_witness:
  "row_ann \<in> set (users_table warm) \<and> email row_ann = c_email req_ann \<and>
   deleted_at row_ann = None \<and> create req_ann env3 warm = (Inl ConflictError, warm)"
proof -
  have h: "row_ann \<in> set (users_table warm)" "email row_ann = c_email req_ann"
    "deleted_at row_ann = None"
    by (simp_all add: example_defs)
  have c: "getCacheUser (c_email req_ann) KEmail warm \<noteq> None"
    by (simp add: example_defs eval_defs)
  from create_existing_email[OF h, of env3] c h show ?thesis
    by (metis prod.collapse)
qed

text \<open>Claim C2 as stated fails in its last part: on a cache that does not hold the row,
  the failed \<open>create\<close> leaves a new entry behind.\<close>

theorem create_conflict_mutates_cache_counterexample:
  "row_ann \<in> set (users_table seeded) \<and> email row_ann = c_email req_ann \<and>
   deleted_at row_ann = None \<and>
   fst (create req_ann env3 seeded) = Inl ConflictError \<and>
   redis_store seeded ''user:email:ann@x.io'' = None \<and>
   redis_store (snd (create req_ann env3 seeded)) ''user:email:ann@x.io'' = Some row_ann \<and>
   redis_store (snd (create req_ann env3 seeded)) \<noteq> redis_store seeded"
proof -
  have a: "redis_store (snd (create req_ann env3 seeded)) ''user:email:ann@x.io'' = Some row_ann"
    by (simp add: example_defs eval_defs)
  have b: "redis_store seeded ''user:email:ann@x.io'' = None" by (simp add: example_defs)
  from a b have "redis_store (snd (create req_ann env3 seeded)) \<noteq> redis_store seeded"
    by (metis option.distinct(1))
  moreover have "fst (create req_ann env3 seeded) = Inl ConflictError"
    by (simp add: example_defs eval_defs)
  ultimately show ?thesis using a b by (simp add: example_defs)
qed

text \<open>
  Claim C10. In a state where a soft-deleted row holds the email \<open>e\<close> (the unique index
  then leaves no room for a live row with \<open>e\<close>), \<open>create\<close> with \<open>e\<close> passes the
  pre-check, which sees live rows only, the insert is refused by the unique index, the
  refusal surfaces as \<open>DatabaseError\<close>, and the state, the table included, is left as it
  was.
\<close>

theorem soft_deleted_email_not_reusable:
  assumes "repo_inv s" and "ghost \<in> set (users_table s)" and "email ghost = c_email d"
    and "deleted_at ghost \<noteq> None"
  shows "findByEmail (c_email d) s = (None, s) \<and>
         prisma_create (new_row d env) (users_table s) = Inl P2002 \<and>
         create d env s = (Inl DatabaseError, s)"
proof -
  have wf: "db_wf (users_table s)" using assms(1) by (simp add: repo_inv_def)
  have none: "findUnique_email (c_email d) (users_table s) = None"
    unfolding findUnique_email_None
  proof (intro ballI impI)
    fix u assume u: "u \<in> set (users_table s)" "ceq (email u) (c_email d)"
    with assms(2,3) wf have "u = ghost" unfolding db_wf_def by metis
    with assms(4) show "deleted_at u \<noteq> None" by simp
  qed
  have rej: "prisma_create (new_row d env) (users_table s) = Inl P2002"
  proof -
    have "\<exists>v \<in> set (users_table s). ceq (id_of v) (id_of (new_row d env)) \<or>
            ceq (email v) (email (new_row d env))"
      using assms(2,3) by (intro bexI[of _ ghost]) (simp_all add: new_row_def ceq_refl)
    then show ?thesis by (simp add: prisma_create_def list_ex_iff)
  qed
  from findByEmail_None[OF assms(1) none] rej create_rejected[OF assms(1) none rej]
  show ?thesis by simp
qed

theorem soft_deleted_email_not_reusable_witness:
  "repo_inv warm \<and> row_bob \<in> set (users_table warm) \<and> email row_bob = c_email req_bob \<and>
   deleted_at row_bob \<noteq> None \<and> create req_bob env3 warm = (Inl DatabaseError, warm) \<and>
   users_table warm = [row_ann, row_bob]"
proof -
  have h: "row_bob \<in> set (users_table warm)" "email row_bob = c_email req_bob"
    "deleted_at row_bob \<noteq> None"
    by (simp_all add: example_defs)
  from soft_deleted_email_not_reusable[OF repo_inv_warm h, of env3] repo_inv_warm h
  show ?thesis by (simp add: warm_def)
qed

section \<open>The cache is an optimisation only\<close>

text \<open>
  Claim C5. Take a state whose cache is connected and mirrors the table, and a state with
  the same table whose cache is not connected (every lookup misses, every write and
  delete is skipped). Every sequence of repository operations returns the same results,
  values and errors alike, from both, and leaves the same table. The result type of an
  operation has no cache failure in it: \<open>NotFoundError\<close>, \<open>ConflictError\<close> and
  \<open>DatabaseError\<close> are the only errors.
\<close>

theorem cache_outage_same_outcomes:
  assumes "repo_inv s_up" and "isConnected s_up"
    and "\<not> isConnected s_down" and "users_table s_down = users_table s_up"
  shows "fst (run ops s_down) = fst (run ops s_up) \<and>
         users_table (snd (run ops s_down)) = users_table (snd (run ops s_up))"
proof -
  have "repo_inv s_down"
    using assms(1,3,4) by (simp add: repo_inv_def cache_consistent_def)
  from run_same_table[OF this assms(1,4)] show ?thesis .
qed

theorem cache_outage_same_outcomes_witness:
  "repo_inv warm \<and> isConnected warm \<and> \<not> isConnected (warm\<lparr>isConnected := False\<rparr>) \<and>
   fst (run ops_demo (warm\<lparr>isConnected := False\<rparr>)) = fst (run ops_demo warm) \<and>
   fst (run ops_demo warm) =
     [ResLookup (Some row_ann), ResUser (Inl DatabaseError),
      ResUser (Inr (row_ann\<lparr>email := ''a@x.io'', updated_at := 10\<rparr>)),
      ResLookup None, ResVoid (Inr ()), ResLookup None] \<and>
   users_table (snd (run ops_demo (warm\<lparr>isConnected := False\<rparr>))) =
     users_table (snd (run ops_demo warm))"
proof -
  have c: "isConnected warm" "\<not> isConnected (warm\<lparr>isConnected := False\<rparr>)"
    "users_table (warm\<lparr>isConnected := False\<rparr>) = users_table warm"
    by (simp_all add: warm_def)
  have r: "fst (run ops_demo warm) =
     [ResLookup (Some row_ann), ResUser (Inl DatabaseError),
      ResUser (Inr (row_ann\<lparr>email := ''a@x.io'', updated_at := 10\<rparr>)),
      ResLookup None, ResVoid (Inr ()), ResLookup None]"
    by code_simp
  from cache_outage_same_outcomes[OF repo_inv_warm c, of ops_demo] repo_inv_warm c r
  show ?thesis by simp
qed

section \<open>Soft delete\<close>

text \<open>
  Claim C3. In a state that satisfies the invariants of the two stores, let \<open>u\<close> be a row
  of the table and let \<open>softDelete(u.id)\<close> succeed. Then \<open>findById(u.id)\<close> and
  \<open>findByEmail(u.email)\<close> return null, no \<open>findMany\<close> returns a row with the id of
  \<open>u\<close>, no cache lookup returns one, both cache keys of \<open>u\<close> are gone from a connected
  cache, and the row is still in the table, with \<open>deleted_at\<close> set to the time of the
  call.
\<close>

theorem softDelete_hides_row:
  assumes "repo_inv s" and "u \<in> set (users_table s)"
    and "softDelete (id_of u) now s = (Inr (), s')"
  shows "fst (findById (id_of u) s') = None \<and>
         fst (findByEmail (email u) s') = None \<and>
         (\<forall>params tie users n. fst (findMany params tie s') = Inr (users, n) \<longrightarrow>
            (\<forall>v \<in> set users. id_of v \<noteq> id_of u)) \<and>
         (\<forall>idn t v. getCacheUser idn t s' = Some v \<longrightarrow> id_of v \<noteq> id_of u) \<and>
         (isConnected s' \<longrightarrow>
            redis_store s' (getCacheKey (id_of u) KId) = None \<and>
            redis_store s' (getCacheKey (email u) KEmail) = None) \<and>
         u\<lparr>deleted_at := Some now, updated_at := now\<rparr> \<in> set (users_table s')"
proof -
  let ?u' = "apply_update (soft_delete_data now) now u"
  let ?tbl' = "map (\<lambda>v. if ceq (id_of v) (id_of u) then ?u' else v) (users_table s)"
  note su = softDelete_success[OF assms]
  have wf: "db_wf (users_table s)" using assms(1) by (simp add: repo_inv_def)
  have inv': "repo_inv s'" using softDelete_inv[OF assms(1), of "id_of u" now] assms(3) by simp
  have t': "users_table s' = ?tbl'" using su(2) by simp
  have u'eq: "?u' = u\<lparr>deleted_at := Some now, updated_at := now\<rparr>"
    by (simp add: apply_update_def soft_delete_data_def)
  have mem: "\<And>x. x \<in> set ?tbl' \<Longrightarrow> x = ?u' \<or> (x \<in> set (users_table s) \<and> \<not> ceq (id_of x) (id_of u))"
    by auto
  have live: "\<And>x. x \<in> set (users_table s') \<Longrightarrow> deleted_at x = None \<Longrightarrow>
      x \<in> set (users_table s) \<and> \<not> ceq (id_of x) (id_of u)"
    using mem unfolding t' u'eq by fastforce
  have a: "findUnique_id (id_of u) (users_table s') = None"
    unfolding findUnique_id_None using live by blast
  have b: "findUnique_email (email u) (users_table s') = None"
    unfolding findUnique_email_None
  proof (intro ballI impI notI)
    fix x assume x: "x \<in> set (users_table s')" "ceq (email x) (email u)" "deleted_at x = None"
    from live[OF x(1,3)] have xs: "x \<in> set (users_table s)" "\<not> ceq (id_of x) (id_of u)" by auto
    from wf xs(1) assms(2) x(2) have "x = u" unfolding db_wf_def by blast
    with xs(2) show False by (simp add: ceq_refl)
  qed
  have c: "\<forall>params tie users n. fst (findMany params tie s') = Inr (users, n) \<longrightarrow>
            (\<forall>v \<in> set users. id_of v \<noteq> id_of u)"
  proof (intro allI impI ballI)
    fix params tie users n v
    assume "fst (findMany params tie s') = Inr (users, n)" "v \<in> set users"
    from findMany_users_matching[OF this] have "v \<in> set (users_table s')" "deleted_at v = None"
      by (simp_all add: where_clause_def)
    from live[OF this] show "id_of v \<noteq> id_of u" by (auto simp: ceq_refl)
  qed
  have d: "\<forall>idn t v. getCacheUser idn t s' = Some v \<longrightarrow> id_of v \<noteq> id_of u"
  proof (intro allI impI)
    fix idn t v assume g: "getCacheUser idn t s' = Some v"
    then have "isConnected s'" "redis_store s' (getCacheKey idn t) = Some v"
      by (auto simp: getCacheUser_def split: if_splits)
    with inv' have "v \<in> set (users_table s')" "deleted_at v = None"
      unfolding repo_inv_def cache_consistent_def by blast+
    from live[OF this] show "id_of v \<noteq> id_of u" by (auto simp: ceq_refl)
  qed
  have e: "isConnected s' \<longrightarrow>
            redis_store s' (getCacheKey (id_of u) KId) = None \<and>
            redis_store s' (getCacheKey (email u) KEmail) = None"
    unfolding su(2) by (simp add: invalidateCacheUser_def)
  from findUnique_id_SomeD[OF su(1)] have "ceq (id_of u) (id_of u)" by simp
  with assms(2) have "(\<lambda>v. if ceq (id_of v) (id_of u) then ?u' else v) u \<in> set ?tbl'"
    by (intro imageI[of u "set (users_table s)", folded set_map])
  then have f: "u\<lparr>deleted_at := Some now, updated_at := now\<rparr> \<in> set (users_table s')"
    unfolding t' u'eq by (simp add: ceq_refl)
  from findById_result[OF inv', of "id_of u"] findByEmail_result[OF inv', of "email u"] a b c d e f
  show ?thesis by simp
qed

theorem softDelete_hides_row_witness:
  "repo_inv warm \<and> row_ann \<in> set (users_table warm) \<and>
   fst (softDelete (id_of row_ann) 11 warm) = Inr () \<and>
   fst (findById (id_of row_ann) (snd (softDelete (id_of row_ann) 11 warm))) = None \<and>
   fst (findByEmail (email row_ann) (snd (softDelete (id_of row_ann) 11 warm))) = None \<and>
   row_ann\<lparr>deleted_at := Some 11, updated_at := 11\<rparr>
     \<in> set (users_table (snd (softDelete (id_of row_ann) 11 warm)))"
proof -
  have m: "row_ann \<in> set (users_table warm)" by (simp add: warm_def)
  have ok: "fst (softDelete (id_of row_ann) 11 warm) = Inr ()" by code_simp
  then have e: "softDelete (id_of row_ann) 11 warm =
      (Inr (), snd (softDelete (id_of row_ann) 11 warm))"
    by (metis prod.collapse)
  from softDelete_hides_row[OF repo_inv_warm m e] repo_inv_warm m ok show ?thesis by blast
qed

section \<open>Changing the email\<close>

text \<open>
  Claim C4. In a state that satisfies the invariants of the two stores, let the live row
  with id \<open>i\<close> have the email \<open>old\<close>, and let \<open>update(i, {email: new, ...})\<close> with
  \<open>new \<noteq> old\<close> succeed. Then \<open>findByEmail(old)\<close> returns null, \<open>findByEmail(new)\<close>
  returns the updated row, and a connected cache has no entry under the key of the old
  email, nor any entry whose row has the old email. The final state is the invalidation
  of the two keys of the old row, then the write of the table, then the cache write of
  the new row, in this order.
\<close>

theorem update_email_rekeys_lookups:
  assumes "repo_inv s" and "findUnique_id i (users_table s) = Some ex"
    and "u_email d = Some new" and "new \<noteq> email ex"
    and "update i d now s = (Inr u', s')"
  shows "fst (findByEmail (email ex) s') = None \<and>
         fst (findByEmail new s') = Some u' \<and>
         u' = apply_update (update_data d) now ex \<and> email u' = new \<and> u' \<in> set (users_table s') \<and>
         (\<forall>k v. isConnected s' \<and> redis_store s' k = Some v \<longrightarrow>
            k \<noteq> getCacheKey (email ex) KEmail \<and> email v \<noteq> email ex) \<and>
         (\<exists>tbl'. s' = setCacheUser u'
            ((invalidateCacheUser ex (snd (findById i s)))\<lparr>users_table := tbl'\<rparr>))"
proof -
  have wf: "db_wf (users_table s)" using assms(1) by (simp add: repo_inv_def)
  from findUnique_id_SomeD[OF assms(2)]
  have ex: "ex \<in> set (users_table s)" "ceq (id_of ex) i" "deleted_at ex = None" by auto
  note us = update_success[OF assms(1,2,5)]
  from us(2) obtain tbl' where
    pu: "prisma_update i (update_data d) now (users_table s) = Inr (u', tbl')"
    and s': "s' = setCacheUser u' ((invalidateCacheUser ex (snd (findById i s)))\<lparr>users_table := tbl'\<rparr>)"
    by blast
  have t': "users_table s' = tbl'" unfolding s' by simp
  note pe = prisma_update_existing[OF wf assms(2) pu]
  have eu': "email u' = new" unfolding pe(1) using assms(3) by (simp add: apply_update_def update_data_def)
  have du': "deleted_at u' = None" unfolding pe(1) using ex(3) by (simp add: apply_update_def update_data_def)
  have inv': "repo_inv s'" using update_inv[OF assms(1), of i d now] assms(5) by simp
  have wf': "db_wf tbl'" using inv' t' by (simp add: repo_inv_def)
  have nceq: "\<not> ceq new (email ex)"
  proof
    assume c: "ceq new (email ex)"
    have "new \<noteq> []" using c assms(4) by (auto simp: ceq_def)
    with assms(3,4) have "email_to_check d ex = Some new" by (simp add: email_to_check_def)
    from us(1)[OF this] have "findUnique_email new (users_table s) = None" .
    moreover have "findUnique_email new (users_table s) = Some ex"
      using wf ex c by (intro findUnique_email_hit) (simp_all add: ceq_def)
    ultimately show False by simp
  qed
  have mem: "\<And>x. x \<in> set tbl' \<Longrightarrow> x = u' \<or> (x \<in> set (users_table s) \<and> \<not> ceq (id_of x) i)"
    unfolding pe(3) by auto
  have old: "\<And>x. x \<in> set tbl' \<Longrightarrow> \<not> ceq (email x) (email ex)"
  proof
    fix x assume x: "x \<in> set tbl'" and c: "ceq (email x) (email ex)"
    from mem[OF x] show False
    proof
      assume "x = u'" with c eu' nceq show False by simp
    next
      assume "x \<in> set (users_table s) \<and> \<not> ceq (id_of x) i"
      moreover with wf ex(1) c have "x = ex" unfolding db_wf_def by blast
      ultimately show False using ex(2) by simp
    qed
  qed
  have a: "findUnique_email (email ex) (users_table s') = None"
    unfolding findUnique_email_None t' using old by blast
  have b: "findUnique_email new (users_table s') = Some u'"
    unfolding t' using wf' pe(2) du' eu' by (intro findUnique_email_hit) (simp_all add: ceq_refl)
  have c: "\<forall>k v. isConnected s' \<and> redis_store s' k = Some v \<longrightarrow>
            k \<noteq> getCacheKey (email ex) KEmail \<and> email v \<noteq> email ex"
  proof (intro allI impI)
    fix k v assume h: "isConnected s' \<and> redis_store s' k = Some v"
    with inv' have v: "v \<in> set tbl'"
      and kk: "k = getCacheKey (id_of v) KId \<or> k = getCacheKey (email v) KEmail"
      unfolding repo_inv_def cache_consistent_def t'[symmetric] by blast+
    from old[OF v] have ne: "email v \<noteq> email ex" by (auto simp: ceq_refl)
    with kk show "k \<noteq> getCacheKey (email ex) KEmail \<and> email v \<noteq> email ex"
      by (auto simp: getCacheKey_inj)
  qed
  have r1: "fst (findByEmail (email ex) s') = None"
    using findByEmail_result[OF inv', of "email ex"] a by simp
  have r2: "fst (findByEmail new s') = Some u'"
    using findByEmail_result[OF inv', of new] b by simp
  have f: "u' \<in> set (users_table s')" using pe(2) t' by simp
  have g: "\<exists>tbl'. s' = setCacheUser u'
            ((invalidateCacheUser ex (snd (findById i s)))\<lparr>users_table := tbl'\<rparr>)"
    using s' by blast
  show ?thesis
    by (intro conjI) (rule r1, rule r2, rule pe(1), rule eu', rule f, rule c, rule g)
qed

theorem update_email_rekeys_lookups_witness:
  "repo_inv warm \<and> findUnique_id ''u1'' (users_table warm) = Some row_ann \<and>
   u_email upd_email = Some ''a@x.io'' \<and> ''a@x.io'' \<noteq> email row_ann \<and>
   fst (update ''u1'' upd_email 10 warm) = Inr (row_ann\<lparr>email := ''a@x.io'', updated_at := 10\<rparr>) \<and>
   fst (findByEmail (email row_ann) (snd (update ''u1'' upd_email 10 warm))) = None \<and>
   fst (findByEmail ''a@x.io'' (snd (update ''u1'' upd_email 10 warm)))
     = Some (row_ann\<lparr>email := ''a@x.io'', updated_at := 10\<rparr>)"
proof -
  have f: "findUnique_id ''u1'' (users_table warm) = Some row_ann"
    by (simp add: example_defs eval_defs)
  have n: "u_email upd_email = Some ''a@x.io''" "''a@x.io'' \<noteq> email row_ann"
    by (simp_all add: upd_email_def row_ann_def)
  have ok: "fst (update ''u1'' upd_email 10 warm) =
      Inr (row_ann\<lparr>email := ''a@x.io'', updated_at := 10\<rparr>)"
    by code_simp
  then have e: "update ''u1'' upd_email 10 warm =
      (Inr (row_ann\<lparr>email := ''a@x.io'', updated_at := 10\<rparr>), snd (update ''u1'' upd_email 10 warm))"
    by (metis prod.collapse)
  from update_email_rekeys_lookups[OF repo_inv_warm f n e] repo_inv_warm f n ok
  show ?thesis by blast
qed

section \<open>What the service hands out\<close>

text \<open>
  Claim C9. Every user representation that a service operation returns (\<open>createUser\<close>,
  \<open>getUserById\<close>, \<open>getUserByEmail\<close>, \<open>getUsers\<close> and \<open>searchUsers\<close>, \<open>updateUser\<close>,
  \<open>activateUser\<close>, \<open>deactivateUser\<close>) has neither a \<open>password\<close> nor a \<open>deleted_at\<close>
  property.
\<close>

theorem service_responses_stripped:
  "(\<forall>r s'. createUser d env s = (Inr r, s') \<longrightarrow> stripped r) \<and>
   (\<forall>r s'. getUserById i s = (Inr r, s') \<longrightarrow> stripped r) \<and>
   (\<forall>r s'. getUserByEmail e s = (Some r, s') \<longrightarrow> stripped r) \<and>
   (\<forall>rs pg s'. getUsers params tie s = (Inr (rs, pg), s') \<longrightarrow> (\<forall>r \<in> set rs. stripped r)) \<and>
   (\<forall>rs pg s'. searchUsers q params tie s = (Inr (rs, pg), s') \<longrightarrow>
      (\<forall>r \<in> set rs. stripped r)) \<and>
   (\<forall>r s'. updateUser i upd now s = (Inr r, s') \<longrightarrow> stripped r) \<and>
   (\<forall>r s'. activateUser i now s = (Inr r, s') \<longrightarrow> stripped r) \<and>
   (\<forall>r s'. deactivateUser i now s = (Inr r, s') \<longrightarrow> stripped r)"
proof -
  have users: "\<And>params rs pg s'. getUsers params tie s = (Inr (rs, pg), s') \<Longrightarrow>
      \<forall>r \<in> set rs. stripped r"
    by (auto simp: getUsers_def Let_def mapUserToResponse_stripped
        split: prod.splits sum.splits)
  have "\<forall>r s'. createUser d env s = (Inr r, s') \<longrightarrow> stripped r"
    by (auto simp: createUser_def mapUserToResponse_stripped split: prod.splits sum.splits)
  moreover have "\<forall>r s'. getUserById i s = (Inr r, s') \<longrightarrow> stripped r"
    by (auto simp: getUserById_def mapUserToResponse_stripped split: prod.splits option.splits)
  moreover have "\<forall>r s'. getUserByEmail e s = (Some r, s') \<longrightarrow> stripped r"
    by (auto simp: getUserByEmail_def mapUserToResponse_stripped split: prod.splits option.splits)
  moreover have "\<forall>rs pg s'. getUsers params tie s = (Inr (rs, pg), s') \<longrightarrow>
      (\<forall>r \<in> set rs. stripped r)"
    using users by blast
  moreover have "\<forall>rs pg s'. searchUsers q params tie s = (Inr (rs, pg), s') \<longrightarrow>
      (\<forall>r \<in> set rs. stripped r)"
    unfolding searchUsers_def using users by blast
  moreover have "\<forall>r s'. updateUser i upd now s = (Inr r, s') \<longrightarrow> stripped r"
    by (auto simp: updateUser_def mapUserToResponse_stripped split: prod.splits sum.splits)
  moreover have "\<forall>r s'. activateUser i now s = (Inr r, s') \<longrightarrow> stripped r"
    by (auto simp: activateUser_def mapUserToResponse_stripped split: prod.splits sum.splits)
  moreover have "\<forall>r s'. deactivateUser i now s = (Inr r, s') \<longrightarrow> stripped r"
    by (auto simp: deactivateUser_def mapUserToResponse_stripped split: prod.splits sum.splits)
  ultimately show ?thesis by blast
qed

lemma getUserById_warm:
  "getUserById ''u1'' warm =
     (Inr [(''id'', JString ''u1''), (''first_name'', JString ''Ann''),
           (''last_name'', JString ''Lee''), (''email'', JString ''ann@x.io''),
           (''is_active'', JBool True), (''created_at'', JDate 1), (''updated_at'', JDate 1)],
      warm)"
  by (simp add: getUserById_def mapUserToResponse_def user_object_def example_defs eval_defs)

theorem service_responses_stripped_witness:
  "getUserById ''u1'' warm =
     (Inr [(''id'', JString ''u1''), (''first_name'', JString ''Ann''),
           (''last_name'', JString ''Lee''), (''email'', JString ''ann@x.io''),
           (''is_active'', JBool True), (''created_at'', JDate 1), (''updated_at'', JDate 1)],
      warm) \<and>
   stripped [(''id'', JString ''u1''), (''first_name'', JString ''Ann''),
           (''last_name'', JString ''Lee''), (''email'', JString ''ann@x.io''),
           (''is_active'', JBool True), (''created_at'', JDate 1), (''updated_at'', JDate 1)]"
proof -
  from service_responses_stripped[where i = "''u1''" and s = warm and d = req_ann and env = env3
      and e = "''ann@x.io''" and params = page2 and tie = by_creation and q = "''a''"
      and upd = upd_email and now = 12]
  have "\<forall>r s'. getUserById ''u1'' warm = (Inr r, s') \<longrightarrow> stripped r" by (elim conjE)
  with getUserById_warm show ?thesis by blast
qed

section \<open>Listing and searching\<close>

subsection \<open>Patterns without wildcards\<close>








subsection \<open>The skip that the client receives\<close>











section \<open>Activating and deactivating\<close>

text \<open>
  Claim C8, as amended. \<open>activateUser\<close> and \<open>deactivateUser\<close> call \<open>update\<close> with the
  patch \<open>{ is_active: b }\<close>. For a live row with id \<open>i\<close>, both of two calls in a row
  succeed; after the second call the row is what it was after the first call except for
  \<open>updated_at\<close>, which carries the time of the second call, and every other row is
  untouched. The table after the second call is the table after the first when the two
  calls carry the same time.
\<close>

theorem set_active_twice:
  assumes "repo_inv s" and "findUnique_id i (users_table s) = Some ex"
    and "toggle = (if b then activateUser else deactivateUser)"
    and "after1 = ex\<lparr>is_active := b, updated_at := t1\<rparr>"
    and "after2 = ex\<lparr>is_active := b, updated_at := t2\<rparr>"
  shows "\<exists>s1 s2.
           toggle i t1 s = (Inr (mapUserToResponse after1), s1) \<and>
           toggle i t2 s1 = (Inr (mapUserToResponse after2), s2) \<and>
           findUnique_id i (users_table s1) = Some after1 \<and>
           findUnique_id i (users_table s2) = Some after2 \<and>
           after2 = after1\<lparr>updated_at := t2\<rparr> \<and>
           users_table s2 = map (\<lambda>v. if ceq (id_of v) i then after2 else v) (users_table s1) \<and>
           (\<forall>v \<in> set (users_table s1). \<not> ceq (id_of v) i \<longrightarrow> v \<in> set (users_table s2)) \<and>
           (t2 = t1 \<longrightarrow> users_table s2 = users_table s1)"
proof -
  have tg: "\<And>j now st. toggle j now st =
      (case update j (active_request b) now st of
         (Inl e, s1) \<Rightarrow> (Inl e, s1) | (Inr u, s1) \<Rightarrow> (Inr (mapUserToResponse u), s1))"
    unfolding assms(3) by (simp add: activateUser_def deactivateUser_def)
  from set_active_once[OF assms(1,2), of b t1] obtain s1 where
    u1: "update i (active_request b) t1 s = (Inr after1, s1)"
    and tb1: "users_table s1 = map (\<lambda>v. if ceq (id_of v) i then after1 else v) (users_table s)"
    and inv1: "repo_inv s1" and f1: "findUnique_id i (users_table s1) = Some after1"
    unfolding assms(4) by blast
  have a21: "after1\<lparr>is_active := b, updated_at := t2\<rparr> = after2" unfolding assms(4,5) by simp
  from set_active_once[OF inv1 f1, of b t2] obtain s2 where
    u2: "update i (active_request b) t2 s1 = (Inr after2, s2)"
    and tb2: "users_table s2 = map (\<lambda>v. if ceq (id_of v) i then after2 else v) (users_table s1)"
    and f2: "findUnique_id i (users_table s2) = Some after2"
    unfolding a21 by blast
  have eq: "after2 = after1\<lparr>updated_at := t2\<rparr>" unfolding assms(4,5) by simp
  have keep: "\<forall>v \<in> set (users_table s1). \<not> ceq (id_of v) i \<longrightarrow> v \<in> set (users_table s2)"
    unfolding tb2 by force
  have same: "t2 = t1 \<longrightarrow> users_table s2 = users_table s1"
  proof
    assume "t2 = t1"
    then have "after2 = after1" unfolding assms(4,5) by simp
    then show "users_table s2 = users_table s1" unfolding tb2 tb1 by (simp add: o_def)
  qed
  have c1: "toggle i t1 s = (Inr (mapUserToResponse after1), s1)" using u1 by (simp add: tg)
  have c2: "toggle i t2 s1 = (Inr (mapUserToResponse after2), s2)" using u2 by (simp add: tg)
  show ?thesis
    by (rule exI[of _ s1], rule exI[of _ s2], intro conjI)
       (rule c1, rule c2, rule f1, rule f2, rule eq, rule tb2, rule keep, rule same)
qed

theorem set_active_twice_witness:
  "repo_inv warm \<and> findUnique_id ''u1'' (users_table warm) = Some row_ann \<and>
   (\<exists>s1 s2.
      activateUser ''u1'' 10 warm
        = (Inr (mapUserToResponse (row_ann\<lparr>is_active := True, updated_at := 10\<rparr>)), s1) \<and>
      activateUser ''u1'' 20 s1
        = (Inr (mapUserToResponse (row_ann\<lparr>is_active := True, updated_at := 20\<rparr>)), s2) \<and>
      findUnique_id ''u1'' (users_table s2)
        = Some (row_ann\<lparr>is_active := True, updated_at := 20\<rparr>))"
proof -
  have f: "findUnique_id ''u1'' (users_table warm) = Some row_ann"
    by (simp add: example_defs eval_defs)
  have t: "activateUser = (if True then activateUser else deactivateUser)" by simp
  from set_active_twice[OF repo_inv_warm f t refl refl, of 10 20] repo_inv_warm f
  show ?thesis by blast
qed

text \<open>Claim C8 as stated fails: the second call leaves the row with another
  \<open>updated_at\<close> than the first, and returns another representation.\<close>

theorem activate_twice_restamps_counterexample:
  "findUnique_id ''u1'' (users_table (snd (activateUser ''u1'' 10 warm)))
     = Some (row_ann\<lparr>updated_at := 10\<rparr>) \<and>
   findUnique_id ''u1''
       (users_table (snd (activateUser ''u1'' 20 (snd (activateUser ''u1'' 10 warm)))))
     = Some (row_ann\<lparr>updated_at := 20\<rparr>) \<and>
   row_ann\<lparr>updated_at := 20\<rparr> \<noteq> row_ann\<lparr>updated_at := 10\<rparr> \<and>
   fst (activateUser ''u1'' 20 (snd (activateUser ''u1'' 10 warm)))
     \<noteq> fst (activateUser ''u1'' 10 warm)"
  by code_simp

end
